theory Spec2Isabelle
  imports Complex_Main "HOL-Library.AList"
begin

section \<open>Python values: exceptions, strings, lists and dictionaries\<close>

text \<open>
  The quantum tic-tac-toe environment \<^verbatim>\<open>QTicTacToeEnv\<close> of \<^verbatim>\<open>qttt.py\<close> is embedded
  function by function.  A Python exception is a value of \<open>error\<close>; a computation that may
  raise has the type \<open>error + 'a\<close>, with \<open>Inl\<close> for the exception.
\<close>

datatype error = IndexError | KeyError | ValueError | CircuitError | AssertionError

definition ebind :: "error + 'a \<Rightarrow> ('a \<Rightarrow> error + 'b) \<Rightarrow> error + 'b" where
  "ebind m f = (case m of Inl e \<Rightarrow> Inl e | Inr x \<Rightarrow> f x)"

text \<open>A list comprehension whose element expression may raise: the first exception wins.\<close>

fun traverse :: "('a \<Rightarrow> error + 'b) \<Rightarrow> 'a list \<Rightarrow> error + 'b list" where
  "traverse f [] = Inr []"
| "traverse f (x # xs) =
     (case f x of
        Inl e \<Rightarrow> Inl e
      | Inr y \<Rightarrow> (case traverse f xs of Inl e \<Rightarrow> Inl e | Inr ys \<Rightarrow> Inr (y # ys)))"

text \<open>\<^verbatim>\<open>xs[i]\<close> for an index \<open>i \<ge> 0\<close>: out of range raises IndexError.\<close>

definition getitem :: "'a list \<Rightarrow> nat \<Rightarrow> error + 'a" where
  "getitem xs i = (if i < length xs then Inr (xs ! i) else Inl IndexError)"

text \<open>\<^verbatim>\<open>s[a:b]\<close> for bounds \<open>a, b \<ge> 0\<close>: a slice never raises, it is cut to the string.\<close>

definition slice :: "'a list \<Rightarrow> nat \<Rightarrow> nat \<Rightarrow> 'a list" where
  "slice s a b = take (b - a) (drop a s)"

text \<open>\<^verbatim>\<open>bin(x)\<close> for \<open>x \<ge> 0\<close>: the prefix \<^verbatim>\<open>0b\<close> and the binary digits, most significant first.\<close>

fun bin_digits :: "nat \<Rightarrow> string" where
  "bin_digits n =
     (if n < 2 then [if n = 0 then CHR ''0'' else CHR ''1'']
      else bin_digits (n div 2) @ [if n mod 2 = 0 then CHR ''0'' else CHR ''1''])"

declare bin_digits.simps [simp del]

definition bin :: "nat \<Rightarrow> string" where
  "bin x = ''0b'' @ bin_digits x"

text \<open>\<^verbatim>\<open>s.zfill(width)\<close>: zeros on the left up to the width, after a leading sign.\<close>

definition zfill :: "nat \<Rightarrow> string \<Rightarrow> string" where
  "zfill width s =
     (if width \<le> length s then s
      else (case s of
              [] \<Rightarrow> replicate width CHR ''0''
            | c # cs \<Rightarrow>
                if c = CHR ''+'' \<or> c = CHR ''-''
                then c # replicate (width - length s) CHR ''0'' @ cs
                else replicate (width - length s) CHR ''0'' @ s))"

text \<open>
  \<^verbatim>\<open>int(s, 2)\<close> on a string of binary digits.  Python also reads a sign, a \<^verbatim>\<open>0b\<close> prefix,
  underscores and surrounding blanks; the environment only parses the digit strings it
  built with \<^verbatim>\<open>bin\<close> and \<^verbatim>\<open>zfill\<close>, and every other string is ValueError here.
\<close>

fun int_digits :: "string \<Rightarrow> nat \<Rightarrow> error + nat" where
  "int_digits [] acc = Inr acc"
| "int_digits (c # cs) acc =
     (if c = CHR ''0'' then int_digits cs (2 * acc)
      else if c = CHR ''1'' then int_digits cs (2 * acc + 1)
      else Inl ValueError)"

definition int_2 :: "string \<Rightarrow> error + nat" where
  "int_2 s = (if s = [] then Inl ValueError else int_digits s 0)"

text \<open>\<^verbatim>\<open>str(i)\<close> of an integer: decimal digits, with a minus sign when negative.\<close>

fun str_nat :: "nat \<Rightarrow> string" where
  "str_nat n =
     (if n < 10 then [''0123456789'' ! n]
      else str_nat (n div 10) @ [''0123456789'' ! (n mod 10)])"

declare str_nat.simps [simp del]

definition str_int :: "int \<Rightarrow> string" where
  "str_int i = (if i < 0 then CHR ''-'' # str_nat (nat (- i)) else str_nat (nat i))"

text \<open>
  A dictionary is an association list in insertion order; \<^verbatim>\<open>d[k] = v\<close> is
  \<^const>\<open>AList.update\<close> (an existing key keeps its place), \<^verbatim>\<open>d[k]\<close> raises KeyError on a
  missing key.
\<close>

definition dict_get :: "('k \<times> 'v) list \<Rightarrow> 'k \<Rightarrow> error + 'v" where
  "dict_get d k = (case map_of d k of None \<Rightarrow> Inl KeyError | Some v \<Rightarrow> Inr v)"

text \<open>
  \<^verbatim>\<open>itertools.permutations(xs, 2)\<close>: the pairs of elements at two different positions, in
  the lexicographic order of the positions.
\<close>

definition permutations2 :: "'a list \<Rightarrow> ('a \<times> 'a) list" where
  "permutations2 xs =
     concat (map (\<lambda>i. map (\<lambda>j. (xs ! i, xs ! j)) (filter (\<lambda>j. j \<noteq> i) [0..<length xs]))
                 [0..<length xs])"

text \<open>
  \<^verbatim>\<open>int(np.sqrt(n))\<close>: the square root cut to an integer.  The root is taken in the reals;
  the double of \<^verbatim>\<open>np.sqrt\<close> is exact on the perfect squares that \<^verbatim>\<open>grid_size ** 2\<close> yields.
\<close>

definition isqrt :: "nat \<Rightarrow> nat" where
  "isqrt n = nat \<lfloor>sqrt (real n)\<rfloor>"

section \<open>The move table\<close>

datatype gate = HGate | XGate | CXGate

type_synonym move_entry = "nat list \<times> gate"

type_synonym moves_dict = "(int \<times> move_entry) list"

text \<open>The first loop of \<^verbatim>\<open>_init_moves_dict\<close>; the state is the dictionary and \<^verbatim>\<open>mv_indx\<close>.\<close>

fun single_qubit_moves :: "nat list \<Rightarrow> moves_dict \<times> int \<Rightarrow> moves_dict \<times> int" where
  "single_qubit_moves [] (mvs_dict, mv_indx) = (mvs_dict, mv_indx)"
| "single_qubit_moves (q # qs) (mvs_dict, mv_indx) =
     single_qubit_moves qs
       (AList.update (mv_indx + 1) ([q], XGate) (AList.update mv_indx ([q], HGate) mvs_dict),
        mv_indx + 2)"

text \<open>The second loop, over the ordered pairs of distinct qubits.\<close>

fun two_qubit_moves :: "(nat \<times> nat) list \<Rightarrow> moves_dict \<times> int \<Rightarrow> moves_dict \<times> int" where
  "two_qubit_moves [] (mvs_dict, mv_indx) = (mvs_dict, mv_indx)"
| "two_qubit_moves ((c, t) # ps) (mvs_dict, mv_indx) =
     two_qubit_moves ps (AList.update mv_indx ([c, t], CXGate) mvs_dict, mv_indx + 1)"

definition init_moves_dict :: "nat \<Rightarrow> moves_dict" where
  "init_moves_dict qnum =
     fst (two_qubit_moves (permutations2 [0..<qnum])
            (single_qubit_moves [0..<qnum] ([], 0)))"

section \<open>The outcome classifier\<close>

definition rows_of :: "nat \<Rightarrow> string \<Rightarrow> string list" where
  "rows_of d board = map (\<lambda>i. slice board (i * d) ((i + 1) * d)) [0..<d]"

text \<open>\<^verbatim>\<open>rows[i][j]\<close>: both subscripts may raise IndexError.\<close>

definition cell :: "string list \<Rightarrow> nat \<Rightarrow> nat \<Rightarrow> error + char" where
  "cell rows i j = ebind (getitem rows i) (\<lambda>r. getitem r j)"

definition cols_of :: "nat \<Rightarrow> string list \<Rightarrow> error + string list" where
  "cols_of d rows = traverse (\<lambda>j. traverse (\<lambda>i. cell rows i j) [0..<d]) [0..<d]"

definition diags_of :: "nat \<Rightarrow> string list \<Rightarrow> error + string list" where
  "diags_of d rows =
     ebind (traverse (\<lambda>i. cell rows i i) [0..<d]) (\<lambda>main.
     ebind (traverse (\<lambda>i. cell rows i (d - i - 1)) [0..<d]) (\<lambda>anti.
     Inr [main, anti]))"

text \<open>
  The loop over the lines of \<^verbatim>\<open>_win_check\<close>, with the variable \<^verbatim>\<open>winner\<close> as
  accumulator.  The two \<^verbatim>\<open>return 0\<close> leave the loop early.
\<close>

fun scan_lines :: "string \<Rightarrow> string \<Rightarrow> string list \<Rightarrow> nat \<Rightarrow> nat" where
  "scan_lines cond_1 cond_2 [] winner = winner"
| "scan_lines cond_1 cond_2 (line # rest) winner =
     (if line = cond_1 then
        (if winner = 0 \<or> winner = 1 then scan_lines cond_1 cond_2 rest 1
         else if winner = 2 then 0
         else scan_lines cond_1 cond_2 rest winner)
      else if line = cond_2 then
        (if winner = 0 \<or> winner = 2 then scan_lines cond_1 cond_2 rest 2
         else if winner = 1 then 0
         else scan_lines cond_1 cond_2 rest winner)
      else scan_lines cond_1 cond_2 rest winner)"

text \<open>The winning lines of the two players: \<^verbatim>\<open>bin(0)[2:].zfill(d)\<close> and \<^verbatim>\<open>bin(2**d - 1)[2:].zfill(d)\<close>.\<close>

definition cond_1 :: "nat \<Rightarrow> string" where
  "cond_1 d = zfill d (drop 2 (bin 0))"

definition cond_2 :: "nat \<Rightarrow> string" where
  "cond_2 d = zfill d (drop 2 (bin (2 ^ d - 1)))"

definition win_check :: "nat \<Rightarrow> string \<Rightarrow> error + nat" where
  "win_check qnum board =
     (let d = isqrt qnum;
          rows = rows_of d board
      in ebind (cols_of d rows) (\<lambda>cols.
         ebind (diags_of d rows) (\<lambda>diags.
         Inr (scan_lines (cond_1 d) (cond_2 d) (rows @ cols @ diags) 0))))"

type_synonym outcomes_dict = "(nat \<times> nat list) list"

text \<open>The board string of a classical index: \<^verbatim>\<open>bin(x)[2:].zfill(qnum)\<close>.\<close>

definition state_string :: "nat \<Rightarrow> nat \<Rightarrow> string" where
  "state_string qnum x = zfill qnum (drop 2 (bin x))"

definition all_states :: "nat \<Rightarrow> string list" where
  "all_states qnum = map (state_string qnum) [0..<2 ^ qnum]"

text \<open>
  The loop of \<^verbatim>\<open>_init_outcomes_dict\<close>: \<^verbatim>\<open>out_dict[winner].append(int(state, 2))\<close> looks the
  list up (KeyError), parses the state (ValueError) and appends.
\<close>

fun outcomes_loop :: "nat \<Rightarrow> string list \<Rightarrow> outcomes_dict \<Rightarrow> error + outcomes_dict" where
  "outcomes_loop qnum [] out_dict = Inr out_dict"
| "outcomes_loop qnum (state # rest) out_dict =
     ebind (win_check qnum state) (\<lambda>winner.
     ebind (dict_get out_dict winner) (\<lambda>l.
     ebind (int_2 state) (\<lambda>x.
     outcomes_loop qnum rest (AList.update winner (l @ [x]) out_dict))))"

definition init_outcomes_dict :: "nat \<Rightarrow> error + outcomes_dict" where
  "init_outcomes_dict qnum = outcomes_loop qnum (all_states qnum) [(1, []), (2, []), (0, [])]"

text \<open>
  The geometry of the board as the specification words it: a board of dimension \<open>d\<close> is
  a row-major grid, cell \<open>(i, j)\<close> at position \<open>i * d + j\<close>; its lines are the \<open>d\<close>
  rows, the \<open>d\<close> columns and the two diagonals.  A line is complete for a symbol when
  every cell of it shows that symbol.
\<close>

definition line_cells :: "nat \<Rightarrow> nat list list" where
  "line_cells d =
     map (\<lambda>i. map (\<lambda>j. i * d + j) [0..<d]) [0..<d] @
     map (\<lambda>j. map (\<lambda>i. i * d + j) [0..<d]) [0..<d] @
     [map (\<lambda>i. i * d + i) [0..<d], map (\<lambda>i. i * d + (d - i - 1)) [0..<d]]"

definition complete_line :: "nat \<Rightarrow> string \<Rightarrow> char \<Rightarrow> bool" where
  "complete_line d board c = list_ex (list_all (\<lambda>k. board ! k = c)) (line_cells d)"

section \<open>The board circuit and its state vector\<close>

text \<open>
  A \<^verbatim>\<open>QuantumCircuit\<close> is its number of qubits, its number of classical bits and the list
  of the gates appended so far, each with the qubits it acts on.
\<close>

record quantum_circuit =
  num_qubits :: nat
  num_clbits :: nat
  data :: "(gate \<times> nat list) list"

definition QuantumCircuit :: "nat \<Rightarrow> nat \<Rightarrow> quantum_circuit" where
  "QuantumCircuit n m = \<lparr>num_qubits = n, num_clbits = m, data = []\<rparr>"

fun gate_qubits :: "gate \<Rightarrow> nat" where
  "gate_qubits HGate = 1"
| "gate_qubits XGate = 1"
| "gate_qubits CXGate = 2"

text \<open>
  \<^verbatim>\<open>circuit.append(gate, qargs)\<close>: Qiskit raises CircuitError when the number of qubits
  does not fit the gate, when an index is not a qubit of the circuit, and when a qubit is
  given twice.
\<close>

definition circuit_append :: "quantum_circuit \<Rightarrow> gate \<Rightarrow> nat list \<Rightarrow> error + quantum_circuit" where
  "circuit_append c g qargs =
     (if length qargs = gate_qubits g \<and> list_all (\<lambda>q. q < num_qubits c) qargs \<and> distinct qargs
      then Inr (c\<lparr>data := data c @ [(g, qargs)]\<rparr>)
      else Inl CircuitError)"

text \<open>
  The gates a circuit of \<open>n\<close> qubits accepts: those \<^verbatim>\<open>circuit.append\<close> does not reject.
\<close>

definition valid_op :: "nat \<Rightarrow> gate \<times> nat list \<Rightarrow> bool" where
  "valid_op n op =
     (length (snd op) = gate_qubits (fst op) \<and> list_all (\<lambda>q. q < n) (snd op) \<and> distinct (snd op))"

text \<open>
  \<^verbatim>\<open>circuit.h(qubits)\<close> appends one Hadamard gate per listed qubit.  \<^verbatim>\<open>reset\<close> calls it
  with \<^verbatim>\<open>range(qnum)\<close> on a circuit of \<^verbatim>\<open>qnum\<close> qubits, where no index is out of range.
\<close>

definition circuit_h :: "quantum_circuit \<Rightarrow> nat list \<Rightarrow> quantum_circuit" where
  "circuit_h c qs = c\<lparr>data := data c @ map (\<lambda>q. (HGate, [q])) qs\<rparr>"

text \<open>
  Modelled from the spec: the state-vector simulation, which the source leaves to the
  Qiskit Aer backend \<^verbatim>\<open>statevector_simulator\<close>.  The register of \<open>n\<close> qubits is a vector
  of \<open>2 ^ n\<close> complex amplitudes, bit \<open>q\<close> of an index being the value of qubit \<open>q\<close>; a
  circuit starts in the basis state of index 0; a gate on qubit \<open>q\<close> combines the two
  amplitudes whose indices differ in bit \<open>q\<close> only, by its 2x2 matrix; the controlled X
  does so where the control bit is 1.  Amplitudes are exact complex numbers, not doubles.
  The last equation of \<open>apply_gate\<close> stands for gates with the wrong number of qubits,
  which \<^verbatim>\<open>circuit.append\<close> rejects before they reach a circuit.
\<close>

definition zero_state :: "nat \<Rightarrow> complex list" where
  "zero_state n = map (\<lambda>i. if i = 0 then 1 else 0) [0..<2 ^ n]"

fun apply_gate :: "gate \<Rightarrow> nat list \<Rightarrow> complex list \<Rightarrow> complex list" where
  "apply_gate HGate [q] v =
     map (\<lambda>i. (v ! unset_bit q i + (if bit i q then - 1 else 1) * v ! set_bit q i)
               / complex_of_real (sqrt 2))
         [0..<length v]"
| "apply_gate XGate [q] v = map (\<lambda>i. v ! flip_bit q i) [0..<length v]"
| "apply_gate CXGate [c, t] v =
     map (\<lambda>i. if bit i c then v ! flip_bit t i else v ! i) [0..<length v]"
| "apply_gate g qargs v = v"

definition statevector :: "quantum_circuit \<Rightarrow> complex list" where
  "statevector c =
     foldl (\<lambda>v (g, qargs). apply_gate g qargs v) (zero_state (num_qubits c)) (data c)"

text \<open>
  \<^verbatim>\<open>np.around(x, decimals)\<close>: the real and the imaginary part are scaled by
  \<open>10 ^ decimals\<close>, rounded to the nearest integer (a tie goes to the even one) and
  scaled back.
\<close>

definition rint :: "real \<Rightarrow> int" where
  "rint x =
     (if x - of_int \<lfloor>x\<rfloor> < 1 / 2 then \<lfloor>x\<rfloor>
      else if 1 / 2 < x - of_int \<lfloor>x\<rfloor> then \<lfloor>x\<rfloor> + 1
      else if even \<lfloor>x\<rfloor> then \<lfloor>x\<rfloor> else \<lfloor>x\<rfloor> + 1)"

definition around :: "nat \<Rightarrow> complex \<Rightarrow> complex" where
  "around decimals z =
     Complex (of_int (rint (Re z * 10 ^ decimals)) / 10 ^ decimals)
             (of_int (rint (Im z * 10 ^ decimals)) / 10 ^ decimals)"

text \<open>The sum of the squared magnitudes of a vector of amplitudes.\<close>

definition norm_sq :: "complex list \<Rightarrow> real" where
  "norm_sq v = (\<Sum>z\<leftarrow>v. (cmod z)\<^sup>2)"

section \<open>The environment\<close>

text \<open>
  The fields of \<^verbatim>\<open>QTicTacToeEnv\<close>.  The two simulator handles are constants of the
  library and carry no state of the game.  The random measurement \<^verbatim>\<open>collapse_board\<close>
  and the stub \<^verbatim>\<open>render\<close> are not modelled.
\<close>

record env =
  qnum :: nat
  circuit :: quantum_circuit
  moves :: moves_dict
  action_space :: nat
  endings_lookuptable :: outcomes_dict
  status_id :: string

text \<open>
  \<^verbatim>\<open>spaces.Discrete(n)\<close>: the gym action space of size \<open>n\<close>, recorded by its size.  Its
  constructor asserts \<open>n > 0\<close> and raises AssertionError otherwise.
\<close>

definition Discrete :: "nat \<Rightarrow> error + nat" where
  "Discrete n = (if 0 < n then Inr n else Inl AssertionError)"

text \<open>
  \<^verbatim>\<open>__init__\<close>: the number of qubits is \<^verbatim>\<open>grid_size ** 2\<close>, for every integer.  The
  circuit, the move table, the action space and the outcome table are built in this
  order; the constructor itself checks nothing.
\<close>

definition init :: "int \<Rightarrow> error + env" where
  "init grid_size =
     (let qn = nat (grid_size ^ 2);
          c = QuantumCircuit qn 0;
          mvs = init_moves_dict qn
      in ebind (Discrete (length mvs)) (\<lambda>space.
         ebind (init_outcomes_dict qn) (\<lambda>endings.
         Inr \<lparr>qnum = qn, circuit = c, moves = mvs, action_space = space,
              endings_lookuptable = endings, status_id = ''''\<rparr>)))"

text \<open>
  A method that mutates the object and may raise returns the exception or the result,
  together with the object as the call leaves it.

  \<^verbatim>\<open>move\<close>: the first statement extends \<^verbatim>\<open>status_id\<close>; the second looks the action up in
  the move table (KeyError) and appends the gate to the circuit.
\<close>

definition move :: "env \<Rightarrow> int \<Rightarrow> (error + unit) \<times> env" where
  "move e action =
     (let e1 = e\<lparr>status_id := status_id e @ str_int action @ ''-''\<rparr>
      in case dict_get (moves e1) action of
           Inl err \<Rightarrow> (Inl err, e1)
         | Inr (qargs, g) \<Rightarrow>
             (case circuit_append (circuit e1) g qargs of
                Inl err \<Rightarrow> (Inl err, e1)
              | Inr c \<Rightarrow> (Inr (), e1\<lparr>circuit := c\<rparr>)))"

text \<open>\<^verbatim>\<open>_get_statevec\<close>: the state vector of the board circuit, rounded to two decimals.\<close>

definition get_statevec :: "env \<Rightarrow> complex list" where
  "get_statevec e = map (around 2) (statevector (circuit e))"

definition step :: "env \<Rightarrow> int \<Rightarrow> (error + complex list \<times> real \<times> bool) \<times> env" where
  "step e action =
     (case move e action of
        (Inl err, e1) \<Rightarrow> (Inl err, e1)
      | (Inr u, e1) \<Rightarrow> (Inr (get_statevec e1, - 0.1, False), e1))"

definition reset :: "env \<Rightarrow> complex list \<times> env" where
  "reset e =
     (let e1 = e\<lparr>circuit := circuit_h (QuantumCircuit (qnum e) (qnum e)) [0..<qnum e],
                 status_id := ''''\<rparr>
      in (get_statevec e1, e1))"

text \<open>\<^verbatim>\<open>check_end\<close>: the label of a collapsed board, read off the outcome table.\<close>

definition check_end :: "env \<Rightarrow> nat \<Rightarrow> error + nat" where
  "check_end e board_state =
     ebind (dict_get (endings_lookuptable e) 1) (\<lambda>wins_1.
     if board_state \<in> set wins_1 then Inr 1
     else ebind (dict_get (endings_lookuptable e) 2) (\<lambda>wins_2.
          if board_state \<in> set wins_2 then Inr 2 else Inr 0))"

text \<open>
  The environments a caller can hold: the one \<^verbatim>\<open>__init__\<close> returns, and the object after
  any further call of \<^verbatim>\<open>reset\<close> or \<^verbatim>\<open>move\<close>, whether the call raised or not.
\<close>

inductive reachable :: "int \<Rightarrow> env \<Rightarrow> bool" for grid_size :: int where
  reach_init: "init grid_size = Inr e \<Longrightarrow> reachable grid_size e"
| reach_reset: "reachable grid_size e \<Longrightarrow> reachable grid_size (snd (reset e))"
| reach_move: "reachable grid_size e \<Longrightarrow> reachable grid_size (snd (move e action))"

section \<open>Strings of binary digits\<close>

lemma bin_digits_zero: "bin_digits 0 = ''0''"
  by (simp add: bin_digits.simps)


lemma isqrt_square: "isqrt (d * d) = d"
  by (simp add: isqrt_def)

lemma bin_digits_length: "0 < k \<Longrightarrow> n < 2 ^ k \<Longrightarrow> length (bin_digits n) \<le> k"
proof (induction n arbitrary: k rule: bin_digits.induct)
  case (1 n)
  show ?case
  proof (cases "n < 2")
    case True
    with 1(2) show ?thesis by (simp add: bin_digits.simps)
  next
    case False
    from 1(2) obtain j where k: "k = Suc j" by (cases k) auto
    have j: "0 < j"
    proof (rule ccontr)
      assume "\<not> 0 < j"
      with k 1(3) False show False by simp
    qed
    have "n div 2 < 2 ^ j" using 1(3) k by simp
    with 1(1)[OF False j] have "length (bin_digits (n div 2)) \<le> j" by simp
    with False k show ?thesis by (subst bin_digits.simps) simp
  qed
qed

lemma bin_digits_one: "bin_digits (Suc 0) = ''1''"
  by (simp add: bin_digits.simps)

lemma int_digits_append:
  "int_digits (xs @ ys) acc = ebind (int_digits xs acc) (int_digits ys)"
  by (induction xs arbitrary: acc) (simp_all add: ebind_def)

lemma int_digits_bin_digits: "int_digits (bin_digits n) acc = Inr (acc * 2 ^ length (bin_digits n) + n)"
proof (induction n arbitrary: acc rule: bin_digits.induct)
  case (1 n)
  show ?case
  proof (cases "n < 2")
    case True
    then have "n = 0 \<or> n = 1" by auto
    then show ?thesis by (auto simp: bin_digits_zero bin_digits_one)
  next
    case False
    have "int_digits (bin_digits n) acc =
        ebind (int_digits (bin_digits (n div 2)) acc)
          (int_digits [if n mod 2 = 0 then CHR ''0'' else CHR ''1''])"
      using False by (subst bin_digits.simps) (simp add: int_digits_append)
    also have "\<dots> = Inr (2 * (acc * 2 ^ length (bin_digits (n div 2)) + n div 2) + n mod 2)"
    proof -
      have "n mod 2 = 0 \<or> n mod 2 = 1" by presburger
      then show ?thesis
      proof
        assume "n mod 2 = 0"
        then show ?thesis by (simp add: ebind_def 1[OF False])
      next
        assume "n mod 2 = 1"
        then show ?thesis by (simp add: ebind_def 1[OF False])
      qed
    qed
    also have "\<dots> = Inr (acc * 2 ^ length (bin_digits n) + n)"
      using False by (subst (2) bin_digits.simps) (simp add: algebra_simps)
    finally show ?thesis .
  qed
qed

lemma int_digits_zeros: "int_digits (replicate k CHR ''0'') 0 = Inr 0"
  by (induction k) simp_all

lemma bin_digits_nonempty: "bin_digits n \<noteq> []"
  by (subst bin_digits.simps) simp

lemma bin_digits_hd: "hd (bin_digits n) = CHR ''0'' \<or> hd (bin_digits n) = CHR ''1''"
proof (induction n rule: bin_digits.induct)
  case (1 n)
  show ?case
  proof (cases "n < 2")
    case True
    then show ?thesis by (simp add: bin_digits.simps)
  next
    case False
    with 1[OF False] show ?thesis
      by (subst (1 2) bin_digits.simps) (simp add: bin_digits_nonempty)
  qed
qed

lemma drop_bin: "drop 2 (bin x) = bin_digits x"
  by (simp add: bin_def)

lemma zfill_bin_digits:
  "zfill w (bin_digits x) = replicate (w - length (bin_digits x)) CHR ''0'' @ bin_digits x"
proof (cases "bin_digits x")
  case Nil
  then show ?thesis using bin_digits_nonempty by simp
next
  case (Cons c cs)
  then have "c = CHR ''0'' \<or> c = CHR ''1''" using bin_digits_hd[of x] by simp
  then show ?thesis using Cons by (auto simp: zfill_def)
qed

lemma int_2_board: "int_2 (zfill w (bin_digits x)) = Inr x"
  by (simp add: int_2_def zfill_bin_digits bin_digits_nonempty int_digits_append
      int_digits_zeros ebind_def int_digits_bin_digits)

lemma length_board: "0 < w \<Longrightarrow> x < 2 ^ w \<Longrightarrow> length (zfill w (bin_digits x)) = w"
  using bin_digits_length[of w x] by (simp add: zfill_bin_digits)


section \<open>The lines of a board\<close>

lemma traverse_Inr:
  "(\<And>x. x \<in> set xs \<Longrightarrow> f x = Inr (g x)) \<Longrightarrow> traverse f xs = Inr (map g xs)"
  by (induction xs) simp_all

lemma row_bound:
  fixes i j d :: nat
  assumes "i < d" "j < d"
  shows "i * d + j < d * d"
proof -
  have "i * d + j < i * d + d" using assms by simp
  also have "\<dots> = Suc i * d" by simp
  also have "\<dots> \<le> d * d" using assms(1) by (metis Suc_leI mult_le_mono1)
  finally show ?thesis .
qed

lemma rows_of_nth:
  assumes "d * d \<le> length board" "i < d"
  shows "rows_of d board ! i = map (\<lambda>j. board ! (i * d + j)) [0..<d]"
proof (rule nth_equalityI)
  have "i * d + d \<le> d * d" using row_bound[OF assms(2), of "d - 1"] assms(2) by simp
  then have le: "i * d + d \<le> length board" using assms(1) by simp
  then show len: "length (rows_of d board ! i) = length (map (\<lambda>j. board ! (i * d + j)) [0..<d])"
    using assms(2) by (simp add: rows_of_def slice_def)
  fix j assume "j < length (rows_of d board ! i)"
  then have j: "j < d" using len by simp
  then show "rows_of d board ! i ! j = map (\<lambda>j. board ! (i * d + j)) [0..<d] ! j"
    using assms(2) le by (simp add: rows_of_def slice_def)
qed

lemma length_rows_of: "length (rows_of d board) = d"
  by (simp add: rows_of_def)

lemma cell_rows_of:
  assumes "d * d \<le> length board" "i < d" "j < d"
  shows "cell (rows_of d board) i j = Inr (board ! (i * d + j))"
  using assms by (simp add: cell_def getitem_def ebind_def length_rows_of rows_of_nth)

lemma rows_of_cells:
  assumes "d * d \<le> length board"
  shows "rows_of d board = map (map ((!) board)) (map (\<lambda>i. map (\<lambda>j. i * d + j) [0..<d]) [0..<d])"
  by (rule nth_equalityI) (simp_all add: length_rows_of rows_of_nth[OF assms] comp_def)

lemma cols_of_cells:
  assumes "d * d \<le> length board"
  shows "cols_of d (rows_of d board) =
    Inr (map (map ((!) board)) (map (\<lambda>j. map (\<lambda>i. i * d + j) [0..<d]) [0..<d]))"
proof -
  have inner: "traverse (\<lambda>i. cell (rows_of d board) i j) [0..<d] =
      Inr (map (\<lambda>i. board ! (i * d + j)) [0..<d])" if "j < d" for j
    by (rule traverse_Inr) (simp add: cell_rows_of[OF assms] that)
  have "cols_of d (rows_of d board) = Inr (map (\<lambda>j. map (\<lambda>i. board ! (i * d + j)) [0..<d]) [0..<d])"
    unfolding cols_of_def by (rule traverse_Inr) (simp add: inner)
  then show ?thesis by (simp add: comp_def)
qed

lemma diags_of_cells:
  assumes "d * d \<le> length board"
  shows "diags_of d (rows_of d board) =
    Inr (map (map ((!) board)) [map (\<lambda>i. i * d + i) [0..<d], map (\<lambda>i. i * d + (d - i - 1)) [0..<d]])"
proof -
  have main: "traverse (\<lambda>i. cell (rows_of d board) i i) [0..<d] =
      Inr (map (\<lambda>i. board ! (i * d + i)) [0..<d])"
    by (rule traverse_Inr) (simp add: cell_rows_of[OF assms])
  have anti: "traverse (\<lambda>i. cell (rows_of d board) i (d - i - 1)) [0..<d] =
      Inr (map (\<lambda>i. board ! (i * d + (d - i - 1))) [0..<d])"
    by (rule traverse_Inr) (simp add: cell_rows_of[OF assms])
  show ?thesis using main anti by (simp add: diags_of_def ebind_def comp_def)
qed

lemma win_check_lines:
  assumes "d * d \<le> length board"
  shows "win_check (d * d) board =
    Inr (scan_lines (cond_1 d) (cond_2 d) (map (map ((!) board)) (line_cells d)) 0)"
proof -
  have "win_check (d * d) board =
      Inr (scan_lines (cond_1 d) (cond_2 d)
        (rows_of d board @
         map (map ((!) board)) (map (\<lambda>j. map (\<lambda>i. i * d + j) [0..<d]) [0..<d]) @
         map (map ((!) board)) [map (\<lambda>i. i * d + i) [0..<d], map (\<lambda>i. i * d + (d - i - 1)) [0..<d]]) 0)"
    unfolding win_check_def isqrt_square Let_def cols_of_cells[OF assms] diags_of_cells[OF assms]
      cond_1_def cond_2_def
    by (simp add: ebind_def)
  then show ?thesis
    unfolding rows_of_cells[OF assms] line_cells_def by simp
qed

lemma scan_lines_le: "winner \<le> 2 \<Longrightarrow> scan_lines c1 c2 ls winner \<le> 2"
proof (induction ls arbitrary: winner)
  case Nil
  then show ?case by simp
next
  case (Cons l ls)
  have ih: "scan_lines c1 c2 ls w \<le> 2" if "w \<le> 2" for w
    using that by (rule Cons.IH)
  have "winner = 0 \<or> winner = Suc 0 \<or> winner = 2" using Cons.prems by arith
  then show ?case
    by (elim disjE) (simp_all add: ih)
qed

lemma scan_lines_1:
  "c1 \<noteq> c2 \<Longrightarrow> scan_lines c1 c2 ls (Suc 0) = (if c2 \<in> set ls then 0 else Suc 0)"
  by (induction ls) auto

lemma scan_lines_2: "c1 \<noteq> c2 \<Longrightarrow> scan_lines c1 c2 ls 2 = (if c1 \<in> set ls then 0 else 2)"
  by (induction ls) auto

lemma scan_lines_0:
  "c1 \<noteq> c2 \<Longrightarrow> scan_lines c1 c2 ls 0 =
    (if c1 \<in> set ls \<and> c2 \<in> set ls then 0
     else if c1 \<in> set ls then 1
     else if c2 \<in> set ls then 2 else 0)"
  by (induction ls) (auto simp: scan_lines_1 scan_lines_2)

lemma twice_pred: "(1::nat) \<le> m \<Longrightarrow> 2 * m - 1 = 2 * (m - 1) + 1"
  by arith

lemma bin_digits_ones: "0 < d \<Longrightarrow> bin_digits (2 ^ d - 1) = replicate d CHR ''1''"
proof (induction d)
  case 0
  then show ?case by simp
next
  case (Suc d)
  show ?case
  proof (cases "d = 0")
    case True
    then show ?thesis by (simp add: bin_digits_one)
  next
    case False
    then have d: "0 < d" by simp
    have "(2::nat) ^ 1 \<le> 2 ^ d" using d by (intro power_increasing) auto
    then have ge: "\<not> (2::nat) ^ Suc d - 1 < 2" by simp
    have "(1::nat) \<le> 2 ^ d" by simp
    then have e: "(2::nat) ^ Suc d - 1 = 2 * (2 ^ d - 1) + 1"
      unfolding power_Suc by (rule twice_pred)
    have dv: "((2::nat) ^ Suc d - 1) div 2 = 2 ^ d - 1" unfolding e by simp
    have md: "((2::nat) ^ Suc d - 1) mod 2 \<noteq> 0" unfolding e by simp
    show ?thesis
      by (subst bin_digits.simps)
        (simp only: ge if_False dv md Suc.IH[OF d] replicate_append_same replicate_Suc)
  qed
qed

lemma cond_1_eq: "0 < d \<Longrightarrow> cond_1 d = replicate d CHR ''0''"
  unfolding cond_1_def drop_bin zfill_bin_digits
  by (cases d) (simp_all add: bin_digits_zero replicate_append_same)

lemma cond_2_eq: "0 < d \<Longrightarrow> cond_2 d = replicate d CHR ''1''"
  unfolding cond_2_def drop_bin zfill_bin_digits using bin_digits_ones[of d] by simp

lemma cond_distinct: "0 < d \<Longrightarrow> cond_1 d \<noteq> cond_2 d"
  by (cases d) (simp_all add: cond_1_eq cond_2_eq)

section \<open>The outcome table\<close>

lemma length_zfill_ge: "w \<le> length (zfill w s)"
  by (auto simp: zfill_def split: list.splits)

lemma state_string_eq: "state_string n x = zfill n (bin_digits x)"
  by (simp add: state_string_def drop_bin)

lemma int_2_state_string: "int_2 (state_string n x) = Inr x"
  by (simp add: state_string_eq int_2_board)

lemma win_check_state_string:
  "\<exists>w\<le>2. win_check (d * d) (state_string (d * d) x) = Inr w"
proof -
  have "d * d \<le> length (state_string (d * d) x)"
    by (simp add: state_string_def length_zfill_ge)
  then show ?thesis
    by (simp add: win_check_lines scan_lines_le)
qed

lemma outcomes_loop_filter:
  assumes "\<And>x. \<exists>w\<le>2. win_check n (state_string n x) = Inr w"
  shows "outcomes_loop n (map (state_string n) xs) [(1, a), (2, b), (0, c)] =
    Inr [(1, a @ filter (\<lambda>x. win_check n (state_string n x) = Inr 1) xs),
         (2, b @ filter (\<lambda>x. win_check n (state_string n x) = Inr 2) xs),
         (0, c @ filter (\<lambda>x. win_check n (state_string n x) = Inr 0) xs)]"
proof (induction xs arbitrary: a b c)
  case Nil
  then show ?case by simp
next
  case (Cons x xs)
  from assms obtain w where w: "w \<le> 2" "win_check n (state_string n x) = Inr w" by blast
  then have "w = 0 \<or> w = 1 \<or> w = 2" by arith
  then show ?case
  proof (elim disjE)
    assume "w = 0"
    then show ?thesis using w(2) Cons.IH[of a b "c @ [x]"]
      by (simp add: ebind_def dict_get_def int_2_state_string)
  next
    assume "w = 1"
    then show ?thesis using w(2) Cons.IH[of "a @ [x]" b c]
      by (simp add: ebind_def dict_get_def int_2_state_string)
  next
    assume "w = 2"
    then show ?thesis using w(2) Cons.IH[of a "b @ [x]" c]
      by (simp add: ebind_def dict_get_def int_2_state_string)
  qed
qed

lemma init_outcomes_dict_eq:
  "init_outcomes_dict (d * d) =
    Inr [(1, filter (\<lambda>x. win_check (d * d) (state_string (d * d) x) = Inr 1) [0..<2 ^ (d * d)]),
         (2, filter (\<lambda>x. win_check (d * d) (state_string (d * d) x) = Inr 2) [0..<2 ^ (d * d)]),
         (0, filter (\<lambda>x. win_check (d * d) (state_string (d * d) x) = Inr 0) [0..<2 ^ (d * d)])]"
  unfolding init_outcomes_dict_def all_states_def
  using outcomes_loop_filter[of "d * d" "[0..<2 ^ (d * d)]" "[]" "[]" "[]", OF win_check_state_string]
  by simp

section \<open>The entries of the move table\<close>

lemma update_fresh: "k \<notin> fst ` set m \<Longrightarrow> AList.update k v m = m @ [(k, v)]"
  by (induction m) auto

lemma keys_fresh:
  assumes "map fst m = map int [0..<k]"
  shows "int k \<notin> fst ` set m"
proof -
  have "fst ` set m = set (map int [0..<k])" using assms by (metis set_map)
  then show ?thesis by auto
qed

lemma keys_snoc:
  assumes "map fst m = map int [0..<k]"
  shows "map fst (m @ [(int k, v)]) = map int [0..<Suc k]"
  using assms by simp

lemma single_step:
  assumes "map fst m = map int [0..<k]"
  shows "single_qubit_moves (q # qs) (m, int k) =
    single_qubit_moves qs (m @ [(int k, ([q], HGate)), (int (Suc k), ([q], XGate))], int (Suc (Suc k)))"
proof -
  have u1: "AList.update (int k) ([q], HGate) m = m @ [(int k, ([q], HGate))]"
    by (rule update_fresh[OF keys_fresh[OF assms]])
  have u2: "AList.update (int (Suc k)) ([q], XGate) (m @ [(int k, ([q], HGate))]) =
      (m @ [(int k, ([q], HGate))]) @ [(int (Suc k), ([q], XGate))]"
    by (rule update_fresh[OF keys_fresh[OF keys_snoc[OF assms]]])
  have i1: "int k + 1 = int (Suc k)" and i2: "int k + 2 = int (Suc (Suc k))" by simp_all
  show ?thesis
    unfolding single_qubit_moves.simps i1 i2 u1 u2 by simp
qed

lemma two_step:
  assumes "map fst m = map int [0..<k]"
  shows "two_qubit_moves ((c, t) # ps) (m, int k) =
    two_qubit_moves ps (m @ [(int k, ([c, t], CXGate))], int (Suc k))"
proof -
  have u1: "AList.update (int k) ([c, t], CXGate) m = m @ [(int k, ([c, t], CXGate))]"
    by (rule update_fresh[OF keys_fresh[OF assms]])
  have i1: "int k + 1 = int (Suc k)" by simp
  show ?thesis
    unfolding two_qubit_moves.simps i1 u1 by simp
qed


lemma single_qubit_moves_eq:
  assumes "map fst m = map int [0..<k]"
  shows "map fst (fst (single_qubit_moves qs (m, int k))) = map int [0..<k + 2 * length qs] \<and>
    map snd (fst (single_qubit_moves qs (m, int k))) =
      map snd m @ concat (map (\<lambda>q. [([q], HGate), ([q], XGate)]) qs) \<and>
    snd (single_qubit_moves qs (m, int k)) = int (k + 2 * length qs)"
  using assms
proof (induction qs arbitrary: m k)
  case Nil
  then show ?case by simp
next
  case (Cons q qs)
  let ?m2 = "m @ [(int k, ([q], HGate)), (int (Suc k), ([q], XGate))]"
  have k2: "map fst ?m2 = map int [0..<Suc (Suc k)]" using Cons.prems by simp
  have e: "Suc (Suc k) + 2 * length qs = k + 2 * length (q # qs)" by simp
  show ?case
    unfolding single_step[OF Cons.prems] using Cons.IH[OF k2] unfolding e by simp
qed

lemma two_qubit_moves_eq:
  assumes "map fst m = map int [0..<k]"
  shows "map fst (fst (two_qubit_moves ps (m, int k))) = map int [0..<k + length ps] \<and>
    map snd (fst (two_qubit_moves ps (m, int k))) =
      map snd m @ map (\<lambda>(c, t). ([c, t], CXGate)) ps"
  using assms
proof (induction ps arbitrary: m k)
  case Nil
  then show ?case by simp
next
  case (Cons p ps)
  obtain c t where p: "p = (c, t)" by (cases p)
  let ?m1 = "m @ [(int k, ([c, t], CXGate))]"
  have k1: "map fst ?m1 = map int [0..<Suc k]" using Cons.prems by simp
  have e: "Suc k + length ps = k + length (p # ps)" by simp
  show ?case
    unfolding p two_step[OF Cons.prems] using Cons.IH[OF k1] unfolding e p by simp
qed

lemma init_moves_dict_keys:
  "map fst (init_moves_dict n) = map int [0..<2 * n + length (permutations2 [0..<n])]"
  and init_moves_dict_entries:
  "map snd (init_moves_dict n) =
     concat (map (\<lambda>q. [([q], HGate), ([q], XGate)]) [0..<n]) @
     map (\<lambda>(c, t). ([c, t], CXGate)) (permutations2 [0..<n])"
proof -
  obtain m1 i1 where s: "single_qubit_moves [0..<n] ([], 0) = (m1, i1)" by force
  have "map fst [] = map int [0..<0]" by simp
  from single_qubit_moves_eq[OF this, of "[0..<n]"] s
  have m1: "map fst m1 = map int [0..<2 * n]"
    "map snd m1 = concat (map (\<lambda>q. [([q], HGate), ([q], XGate)]) [0..<n])"
    "i1 = int (2 * n)" by simp_all
  from two_qubit_moves_eq[OF m1(1), of "permutations2 [0..<n]"]
  show "map fst (init_moves_dict n) = map int [0..<2 * n + length (permutations2 [0..<n])]"
    and "map snd (init_moves_dict n) =
     concat (map (\<lambda>q. [([q], HGate), ([q], XGate)]) [0..<n]) @
     map (\<lambda>(c, t). ([c, t], CXGate)) (permutations2 [0..<n])"
    unfolding init_moves_dict_def s m1(3) m1(2) by simp_all
qed

lemma permutations2_upt:
  "permutations2 [0..<n] =
     concat (map (\<lambda>i. map (\<lambda>j. (i, j)) (filter (\<lambda>j. j \<noteq> i) [0..<n])) [0..<n])"
  unfolding permutations2_def
  by (auto intro!: arg_cong[where f = concat] map_cong)

lemma length_filter_neq: "i < n \<Longrightarrow> length (filter (\<lambda>j. j \<noteq> i) [0..<n]) = n - 1"
proof -
  assume i: "i < n"
  have "length (filter (\<lambda>j. j \<noteq> i) [0..<n]) = card ({j. j \<noteq> i} \<inter> set [0..<n])"
    by (rule distinct_length_filter) simp
  also have "{j. j \<noteq> i} \<inter> set [0..<n] = {0..<n} - {i}" by auto
  also have "card ({0..<n} - {i}) = n - 1" using i by simp
  finally show ?thesis .
qed

lemma sum_list_const: "(\<And>x. x \<in> set xs \<Longrightarrow> f x = c) \<Longrightarrow> sum_list (map f xs) = length xs * (c::nat)"
  by (induction xs) simp_all

lemma length_permutations2: "length (permutations2 [0..<n]) = n * (n - 1)"
proof -
  have "length (permutations2 [0..<n]) =
      sum_list (map (\<lambda>i. length (filter (\<lambda>j. j \<noteq> i) [0..<n])) [0..<n])"
    unfolding permutations2_upt by (simp add: length_concat comp_def)
  also have "\<dots> = length [0..<n] * (n - 1)"
    by (rule sum_list_const) (simp add: length_filter_neq)
  finally show ?thesis by simp
qed

lemma set_permutations2: "set (permutations2 [0..<n]) = {(c, t). c < n \<and> t < n \<and> c \<noteq> t}"
  unfolding permutations2_upt by auto

lemma distinct_concat_map:
  assumes "distinct xs" and "\<And>x. x \<in> set xs \<Longrightarrow> distinct (f x)"
    and "\<And>x y. x \<in> set xs \<Longrightarrow> y \<in> set xs \<Longrightarrow> x \<noteq> y \<Longrightarrow> set (f x) \<inter> set (f y) = {}"
  shows "distinct (concat (map f xs))"
  using assms
proof (induction xs)
  case Nil
  then show ?case by simp
next
  case (Cons x xs)
  have "set (f x) \<inter> set (f y) = {}" if "y \<in> set xs" for y
    using Cons.prems(1) Cons.prems(3)[of x y] that by auto
  moreover have "distinct (concat (map f xs))"
    using Cons.prems by (intro Cons.IH) auto
  moreover have "distinct (f x)" using Cons.prems(2)[of x] by simp
  ultimately show ?case by auto
qed

lemma distinct_permutations2: "distinct (permutations2 [0..<n])"
  unfolding permutations2_upt
  by (rule distinct_concat_map) (auto simp: distinct_map inj_on_def)

lemma distinct_entries:
  "distinct (concat (map (\<lambda>q. [([q], HGate), ([q], XGate)]) [0..<n]) @
     map (\<lambda>(c, t). ([c, t], CXGate)) (permutations2 [0..<n]))"
proof -
  have "distinct (concat (map (\<lambda>q. [([q], HGate), ([q], XGate)]) [0..<n]))"
    by (rule distinct_concat_map) auto
  moreover have "distinct (map (\<lambda>(c, t). ([c, t], CXGate)) (permutations2 [0..<n]))"
    by (auto simp: distinct_map distinct_permutations2 inj_on_def)
  ultimately show ?thesis by auto
qed

section \<open>Construction and the classifier\<close>

lemma nat_square: "nat (g ^ 2) = nat \<bar>g\<bar> * nat \<bar>g\<bar>"
  by (simp add: power2_eq_square nat_mult_distrib[symmetric])

lemma length_init_moves_dict: "length (init_moves_dict n) = 2 * n + n * (n - 1)"
  using arg_cong[OF init_moves_dict_keys[of n], of length]
  by (simp add: length_permutations2)

lemma init_zero: "init 0 = Inl AssertionError"
proof -
  have "length (init_moves_dict 0) = 0" unfolding length_init_moves_dict by simp
  then have "init_moves_dict 0 = []" by simp
  then show ?thesis by (simp add: init_def Let_def Discrete_def ebind_def)
qed

lemma init_eq:
  assumes "g \<noteq> 0"
  shows "init g =
    Inr \<lparr>qnum = nat \<bar>g\<bar> * nat \<bar>g\<bar>,
         circuit = QuantumCircuit (nat \<bar>g\<bar> * nat \<bar>g\<bar>) 0,
         moves = init_moves_dict (nat \<bar>g\<bar> * nat \<bar>g\<bar>),
         action_space = length (init_moves_dict (nat \<bar>g\<bar> * nat \<bar>g\<bar>)),
         endings_lookuptable =
           [(1, filter (\<lambda>x. win_check (nat \<bar>g\<bar> * nat \<bar>g\<bar>)
                    (state_string (nat \<bar>g\<bar> * nat \<bar>g\<bar>) x) = Inr 1)
                  [0..<2 ^ (nat \<bar>g\<bar> * nat \<bar>g\<bar>)]),
            (2, filter (\<lambda>x. win_check (nat \<bar>g\<bar> * nat \<bar>g\<bar>)
                    (state_string (nat \<bar>g\<bar> * nat \<bar>g\<bar>) x) = Inr 2)
                  [0..<2 ^ (nat \<bar>g\<bar> * nat \<bar>g\<bar>)]),
            (0, filter (\<lambda>x. win_check (nat \<bar>g\<bar> * nat \<bar>g\<bar>)
                    (state_string (nat \<bar>g\<bar> * nat \<bar>g\<bar>) x) = Inr 0)
                  [0..<2 ^ (nat \<bar>g\<bar> * nat \<bar>g\<bar>)])],
         status_id = ''''\<rparr>"
proof -
  have "0 < nat \<bar>g\<bar>" using assms by simp
  then have "0 < length (init_moves_dict (nat \<bar>g\<bar> * nat \<bar>g\<bar>))"
    unfolding length_init_moves_dict by simp
  then have d: "Discrete (length (init_moves_dict (nat \<bar>g\<bar> * nat \<bar>g\<bar>))) =
      Inr (length (init_moves_dict (nat \<bar>g\<bar> * nat \<bar>g\<bar>)))"
    by (simp add: Discrete_def)
  show ?thesis
    unfolding init_def nat_square Let_def init_outcomes_dict_eq d by (simp add: ebind_def)
qed

lemma init_nonzero:
  assumes "init g = Inr e"
  shows "g \<noteq> 0"
  using assms init_zero by auto

lemma init_fields:
  assumes "init g = Inr e"
  shows "qnum e = nat \<bar>g\<bar> * nat \<bar>g\<bar>"
    and "circuit e = QuantumCircuit (qnum e) 0"
    and "moves e = init_moves_dict (qnum e)"
    and "status_id e = ''''"
  using assms unfolding init_eq[OF init_nonzero[OF assms]] by auto

lemma check_end_init:
  assumes "init g = Inr e" and "x < 2 ^ qnum e"
  shows "check_end e x = win_check (qnum e) (state_string (qnum e) x)"
proof -
  let ?n = "nat \<bar>g\<bar> * nat \<bar>g\<bar>"
  from win_check_state_string[of "nat \<bar>g\<bar>" x]
  obtain w where w: "w \<le> 2" "win_check ?n (state_string ?n x) = Inr w" by blast
  have n: "qnum e = ?n" using assms(1) by (rule init_fields)
  have x: "x < 2 ^ ?n" using assms(2) n by simp
  have "w = 0 \<or> w = 1 \<or> w = 2" using w(1) by arith
  then have "check_end e x = Inr w"
    using assms(1) w(2) x unfolding init_eq[OF init_nonzero[OF assms(1)]]
    by (elim disjE) (auto simp: check_end_def dict_get_def ebind_def)
  then show ?thesis using w(2) n by simp
qed

lemma anti_bound:
  fixes i d :: nat
  assumes "i < d"
  shows "i * d + (d - Suc i) < d * d" and "i * d + d - Suc i < d * d"
proof -
  show "i * d + (d - Suc i) < d * d" using assms by (intro row_bound) simp_all
  moreover have "i * d + d - Suc i = i * d + (d - Suc i)" using assms by simp
  ultimately show "i * d + d - Suc i < d * d" by simp
qed

lemma row_end:
  fixes i d :: nat
  assumes "i < d"
  shows "d + i * d \<le> d * d"
proof -
  have "Suc i * d \<le> d * d" using assms by (intro mult_le_mono1) simp
  then show ?thesis by simp
qed

lemma row_cells: "\<forall>i\<in>{0..<d::nat}. \<forall>k\<in>{i * d..<d + i * d}. k < d * d"
proof (intro ballI)
  fix i k :: nat assume "i \<in> {0..<d}" "k \<in> {i * d..<d + i * d}"
  then have "i < d" "k < d + i * d" by simp_all
  then show "k < d * d" using row_end[of i d] by linarith
qed

lemma line_cells_all: "list_all (list_all (\<lambda>k. k < d * d)) (line_cells d)"
  unfolding line_cells_def list_all_append
  by (simp add: list_all_iff row_bound anti_bound row_cells)

lemma line_cells_bound:
  assumes "l \<in> set (line_cells d)" "k \<in> set l"
  shows "k < d * d"
  using line_cells_all[of d] assms unfolding list_all_iff by blast


lemma map_eq_replicate: "map f l = replicate (length l) c \<longleftrightarrow> (\<forall>k\<in>set l. f k = c)"
  by (induction l) auto

lemma line_cells_length: "l \<in> set (line_cells d) \<Longrightarrow> length l = d"
  by (auto simp: line_cells_def)

lemma line_cells_nonempty: "line_cells d \<noteq> []"
  by (simp add: line_cells_def)

lemma complete_line_iff:
  "complete_line d board c \<longleftrightarrow> replicate d c \<in> set (map (map ((!) board)) (line_cells d))"
proof -
  have "list_all (\<lambda>k. board ! k = c) l \<longleftrightarrow> map ((!) board) l = replicate d c"
    if "l \<in> set (line_cells d)" for l
    using line_cells_length[OF that] map_eq_replicate[of "(!) board" l c]
    by (simp add: list_all_iff)
  then have "(\<exists>l\<in>set (line_cells d). list_all (\<lambda>k. board ! k = c) l) \<longleftrightarrow>
      (\<exists>l\<in>set (line_cells d). replicate d c = map ((!) board) l)"
    by (metis (no_types, lifting))
  then show ?thesis
    unfolding complete_line_def list_ex_iff set_map image_iff .
qed

lemma win_check_complete:
  assumes "0 < d" "d * d \<le> length board"
  shows "win_check (d * d) board =
    Inr (if complete_line d board CHR ''0'' \<and> complete_line d board CHR ''1'' then 0
         else if complete_line d board CHR ''0'' then 1
         else if complete_line d board CHR ''1'' then 2 else 0)"
proof -
  have ne: "replicate d CHR ''0'' \<noteq> replicate d CHR ''1''"
    using cond_distinct[OF assms(1)] by (simp add: cond_1_eq[OF assms(1)] cond_2_eq[OF assms(1)])
  show ?thesis
    unfolding win_check_lines[OF assms(2)] cond_1_eq[OF assms(1)] cond_2_eq[OF assms(1)]
      scan_lines_0[OF ne] complete_line_iff
    by simp
qed

lemma state_string_zero: "0 < n \<Longrightarrow> state_string n 0 = replicate n CHR ''0''"
  unfolding state_string_eq zfill_bin_digits
  by (cases n) (simp_all add: bin_digits_zero replicate_append_same)

lemma complete_line_zeros:
  assumes "0 < d"
  shows "complete_line d (replicate (d * d) c) c' \<longleftrightarrow> c = c'"
proof -
  have "map ((!) (replicate (d * d) c)) l = replicate d c" if "l \<in> set (line_cells d)" for l
    using line_cells_length[OF that] line_cells_bound[OF that]
      map_eq_replicate[of "(!) (replicate (d * d) c)" l c]
    by simp
  then have "map (map ((!) (replicate (d * d) c))) (line_cells d)
      = replicate (length (line_cells d)) (replicate d c)"
    using map_eq_replicate[of "map ((!) (replicate (d * d) c))" "line_cells d" "replicate d c"]
    by simp
  then show ?thesis
    using line_cells_nonempty[of d] assms
    by (cases d) (auto simp: complete_line_iff)
qed

section \<open>The environment of one qubit\<close>

lemma upt_two: "[0..<2] = [0, Suc 0]"
  by (simp add: numeral_2_eq_2)

lemma win_check_one_qubit:
  "win_check (Suc 0) (state_string (Suc 0) 0) = Inr 1"
  "win_check (Suc 0) (state_string (Suc 0) (Suc 0)) = Inr 2"
proof -
  have s0: "state_string (Suc 0) 0 = ''0''" and s1: "state_string (Suc 0) (Suc 0) = ''1''"
    by code_simp+
  have z0: "complete_line 1 ''0'' CHR ''0''" and o0: "\<not> complete_line 1 ''0'' CHR ''1''"
    and z1: "\<not> complete_line 1 ''1'' CHR ''0''" and o1: "complete_line 1 ''1'' CHR ''1''"
    by code_simp+
  show "win_check (Suc 0) (state_string (Suc 0) 0) = Inr 1"
    using win_check_complete[of 1 "''0''"] z0 o0 unfolding s0 by simp
  show "win_check (Suc 0) (state_string (Suc 0) (Suc 0)) = Inr 2"
    using win_check_complete[of 1 "''1''"] z1 o1 unfolding s1 by simp
qed

lemma init_moves_dict_one: "init_moves_dict (Suc 0) = [(0, ([0], HGate)), (1, ([0], XGate))]"
  by code_simp

lemma init_one:
  "init 1 = Inr \<lparr>qnum = 1, circuit = QuantumCircuit 1 0,
      moves = [(0, ([0], HGate)), (1, ([0], XGate))], action_space = 2,
      endings_lookuptable = [(1, [0]), (2, [1]), (0, [])], status_id = ''''\<rparr>"
proof -
  have "init 1 = Inr \<lparr>qnum = nat \<bar>1\<bar> * nat \<bar>1\<bar>,
         circuit = QuantumCircuit (nat \<bar>1\<bar> * nat \<bar>1\<bar>) 0,
         moves = init_moves_dict (nat \<bar>1\<bar> * nat \<bar>1\<bar>),
         action_space = length (init_moves_dict (nat \<bar>1\<bar> * nat \<bar>1\<bar>)),
         endings_lookuptable =
           [(1, filter (\<lambda>x. win_check (nat \<bar>1\<bar> * nat \<bar>1\<bar>)
                    (state_string (nat \<bar>1\<bar> * nat \<bar>1\<bar>) x) = Inr 1)
                  [0..<2 ^ (nat \<bar>1\<bar> * nat \<bar>1\<bar>)]),
            (2, filter (\<lambda>x. win_check (nat \<bar>1\<bar> * nat \<bar>1\<bar>)
                    (state_string (nat \<bar>1\<bar> * nat \<bar>1\<bar>) x) = Inr 2)
                  [0..<2 ^ (nat \<bar>1\<bar> * nat \<bar>1\<bar>)]),
            (0, filter (\<lambda>x. win_check (nat \<bar>1\<bar> * nat \<bar>1\<bar>)
                    (state_string (nat \<bar>1\<bar> * nat \<bar>1\<bar>) x) = Inr 0)
                  [0..<2 ^ (nat \<bar>1\<bar> * nat \<bar>1\<bar>)])],
         status_id = []\<rparr>"
    by (rule init_eq) simp
  then show ?thesis
    by (simp add: upt_two win_check_one_qubit init_moves_dict_one)
qed

lemma init_negate: "init (- g) = init g"
proof (cases "g = 0")
  case True
  then show ?thesis by simp
next
  case False
  then have "- g \<noteq> 0" by simp
  from init_eq[OF this] init_eq[OF False] show ?thesis by simp
qed


lemma move_unknown:
  assumes "action \<notin> fst ` set (moves e)"
  shows "move e action = (Inl KeyError, e\<lparr>status_id := status_id e @ str_int action @ ''-''\<rparr>)"
proof -
  have "map_of (moves e) action = None" using assms by (simp add: map_of_eq_None_iff)
  then show ?thesis by (simp add: move_def dict_get_def)
qed

lemma move_failure:
  assumes "fst (move e action) = Inl err"
  shows "snd (move e action) = e\<lparr>status_id := status_id e @ str_int action @ ''-''\<rparr>"
  using assms
  by (auto simp: move_def Let_def split: sum.splits prod.splits)

lemma move_success:
  assumes "fst (move e action) = Inr u"
  shows "\<exists>qargs g. dict_get (moves e) action = Inr (qargs, g) \<and>
    snd (move e action) =
      e\<lparr>status_id := status_id e @ str_int action @ ''-'',
        circuit := (circuit e)\<lparr>data := data (circuit e) @ [(g, qargs)]\<rparr>\<rparr>"
  using assms
  by (auto simp: move_def Let_def circuit_append_def split: sum.splits prod.splits if_splits)

lemma str_int_5: "str_int 5 = ''5''"
  by code_simp

section \<open>Bits of basis-state indices\<close>

lemma bit_high_false:
  fixes i :: nat
  assumes "i < 2 ^ m" "m \<le> j"
  shows "\<not> bit i j"
proof -
  have "(2::nat) ^ m \<le> 2 ^ j" using assms(2) by (simp add: power_increasing)
  with assms(1) have "i < 2 ^ j" by (rule order_less_le_trans)
  then show ?thesis by (simp add: bit_iff_odd)
qed

lemma less_power_bitsI:
  fixes i :: nat
  assumes "\<And>j. m \<le> j \<Longrightarrow> \<not> bit i j"
  shows "i < 2 ^ m"
proof -
  have "take_bit m i = i"
  proof (rule bit_eqI)
    fix n
    show "bit (take_bit m i) n = bit i n"
      using assms[of n] by (cases "m \<le> n") (auto simp: bit_take_bit_iff)
  qed
  then show ?thesis by (simp add: take_bit_nat_eq_self_iff)
qed

lemma flip_bit_less:
  fixes i :: nat
  assumes "i < 2 ^ n" "q < n"
  shows "flip_bit q i < 2 ^ n"
proof (rule less_power_bitsI)
  fix j assume "n \<le> j"
  then show "\<not> bit (flip_bit q i) j"
    using bit_high_false[OF assms(1), of j] assms(2) by (simp add: bit_flip_bit_iff)
qed

lemma flip_bit_flip_bit: "flip_bit q (flip_bit q i) = (i::nat)"
  by (rule bit_eqI) (auto simp: bit_flip_bit_iff)

lemma bit_flip_bit_same: "bit (flip_bit q i) q \<longleftrightarrow> \<not> bit (i::nat) q"
  by (simp add: bit_flip_bit_iff)

lemma bit_flip_bit_other: "c \<noteq> t \<Longrightarrow> bit (flip_bit t i) c \<longleftrightarrow> bit (i::nat) c"
  by (auto simp: bit_flip_bit_iff)

lemma unset_bit_flip_bit: "unset_bit q (flip_bit q i) = unset_bit q (i::nat)"
  by (rule bit_eqI) (auto simp: bit_flip_bit_iff bit_unset_bit_iff)

lemma set_bit_flip_bit: "set_bit q (flip_bit q i) = set_bit q (i::nat)"
  by (rule bit_eqI) (auto simp: bit_flip_bit_iff bit_set_bit_iff)

lemma unset_bit_cases: "unset_bit q (i::nat) = (if bit i q then flip_bit q i else i)"
  by (rule bit_eqI) (auto simp: bit_flip_bit_iff bit_unset_bit_iff)

lemma set_bit_cases: "set_bit q (i::nat) = (if bit i q then i else flip_bit q i)"
  by (rule bit_eqI) (auto simp: bit_flip_bit_iff bit_set_bit_iff)

lemma flip_bit_bij:
  assumes "q < n"
  shows "bij_betw (flip_bit q) {..<(2::nat) ^ n} {..<2 ^ n}"
  by (rule bij_betw_byWitness[where f' = "flip_bit q"])
    (auto simp: flip_bit_less[OF _ assms] flip_bit_flip_bit)

section \<open>Gates preserve the sum of squared magnitudes\<close>

lemma norm_sq_sum: "norm_sq v = (\<Sum>i<length v. (cmod (v ! i))\<^sup>2)"
proof -
  have "norm_sq v = sum_list (map (\<lambda>z. (cmod z)\<^sup>2) (map ((!) v) [0..<length v]))"
    unfolding norm_sq_def map_nth ..
  also have "\<dots> = sum_list (map (\<lambda>i. (cmod (v ! i))\<^sup>2) [0..<length v])"
    by (simp add: comp_def)
  also have "\<dots> = (\<Sum>i\<in>set [0..<length v]. (cmod (v ! i))\<^sup>2)"
    by (rule interv_sum_list_conv_sum_set_nat)
  also have "set [0..<length v] = {..<length v}" by auto
  finally show ?thesis .
qed

lemma length_apply_gate: "length (apply_gate g qargs v) = length v"
  by (induction g qargs v rule: apply_gate.induct) simp_all

lemma norm_sq_map_upt:
  "norm_sq (map f [0..<m]) = (\<Sum>i<m. (cmod (f i))\<^sup>2)"
  unfolding norm_sq_sum by simp

lemma norm_sq_XGate:
  assumes "length v = 2 ^ n" "q < n"
  shows "norm_sq (apply_gate XGate [q] v) = norm_sq v"
proof -
  have "norm_sq (apply_gate XGate [q] v) = (\<Sum>i<2 ^ n. (cmod (v ! flip_bit q i))\<^sup>2)"
    using assms(1) by (simp add: norm_sq_map_upt)
  also have "\<dots> = (\<Sum>i<2 ^ n. (cmod (v ! i))\<^sup>2)"
    by (rule sum.reindex_bij_betw[OF flip_bit_bij[OF assms(2)]])
  finally show ?thesis using assms(1) by (simp add: norm_sq_sum)
qed

lemma cx_perm_bij:
  assumes "t < n" "c \<noteq> t"
  shows "bij_betw (\<lambda>i. if bit i c then flip_bit t i else i) {..<(2::nat) ^ n} {..<2 ^ n}"
  by (rule bij_betw_byWitness[where f' = "\<lambda>i. if bit i c then flip_bit t i else i"])
    (auto simp: flip_bit_less[OF _ assms(1)] flip_bit_flip_bit bit_flip_bit_other[OF assms(2)])

lemma norm_sq_CXGate:
  assumes "length v = 2 ^ n" "t < n" "c \<noteq> t"
  shows "norm_sq (apply_gate CXGate [c, t] v) = norm_sq v"
proof -
  let ?p = "\<lambda>i::nat. if bit i c then flip_bit t i else i"
  have "norm_sq (apply_gate CXGate [c, t] v) = (\<Sum>i<2 ^ n. (cmod (v ! ?p i))\<^sup>2)"
    using assms(1) by (simp add: norm_sq_map_upt if_distrib[of "\<lambda>j. v ! j"] cong: if_cong)
  also have "\<dots> = (\<Sum>i<2 ^ n. (cmod (v ! i))\<^sup>2)"
    by (rule sum.reindex_bij_betw[OF cx_perm_bij[OF assms(2,3)]])
  finally show ?thesis using assms(1) by (simp add: norm_sq_sum)
qed

lemma cmod_sq_add: "(cmod (x + y))\<^sup>2 = (cmod x)\<^sup>2 + (cmod y)\<^sup>2 + 2 * Re (x * cnj y)"
  unfolding cmod_power2 by (simp add: power2_eq_square algebra_simps)

lemma cmod_sq_diff: "(cmod (x - y))\<^sup>2 = (cmod x)\<^sup>2 + (cmod y)\<^sup>2 - 2 * Re (x * cnj y)"
  unfolding cmod_power2 by (simp add: power2_eq_square algebra_simps)

lemma cmod_sq_div_sqrt2: "(cmod (z / complex_of_real (sqrt 2)))\<^sup>2 = (cmod z)\<^sup>2 / 2"
  by (simp add: norm_divide power_divide)

lemma hadamard_entry:
  "(cmod ((x + (if b then - 1 else 1) * y) / complex_of_real (sqrt 2)))\<^sup>2 =
     ((cmod x)\<^sup>2 + (cmod y)\<^sup>2) / 2 + (if b then - 1 else 1) * Re (x * cnj y)"
  by (cases b) (simp_all add: cmod_sq_div_sqrt2 cmod_sq_add cmod_sq_diff add_divide_distrib diff_divide_distrib)

lemma sum_odd_flip:
  fixes g :: "nat \<Rightarrow> real"
  assumes "q < n" and "\<And>i. g (flip_bit q i) = - g i"
  shows "(\<Sum>i<2 ^ n. g i) = 0"
proof -
  have "(\<Sum>i<2 ^ n. g (flip_bit q i)) = (\<Sum>i<2 ^ n. g i)"
    by (rule sum.reindex_bij_betw[OF flip_bit_bij[OF assms(1)]])
  then have "- (\<Sum>i<2 ^ n. g i) = (\<Sum>i<2 ^ n. g i)"
    by (simp add: assms(2) sum_negf)
  then show ?thesis by simp
qed

lemma norm_sq_HGate:
  assumes "length v = 2 ^ n" "q < n"
  shows "norm_sq (apply_gate HGate [q] v) = norm_sq v"
proof -
  let ?u = "\<lambda>i::nat. v ! unset_bit q i" and ?s = "\<lambda>i::nat. v ! set_bit q i"
  let ?sg = "\<lambda>i::nat. if bit i q then - 1 else (1::real)"
  let ?g = "\<lambda>i. ?sg i * Re (?u i * cnj (?s i))"
  let ?a = "\<lambda>i. (cmod (v ! i))\<^sup>2"
  have pair: "(cmod (?u i))\<^sup>2 + (cmod (?s i))\<^sup>2 = ?a i + ?a (flip_bit q i)" for i
    by (simp add: unset_bit_cases set_bit_cases)
  have odd: "?g (flip_bit q i) = - ?g i" for i
    by (simp add: unset_bit_flip_bit set_bit_flip_bit bit_flip_bit_same)
  have flip: "(\<Sum>i<2 ^ n. ?a (flip_bit q i)) = (\<Sum>i<2 ^ n. ?a i)"
    by (rule sum.reindex_bij_betw[OF flip_bit_bij[OF assms(2)]])
  have "norm_sq (apply_gate HGate [q] v) =
      (\<Sum>i<2 ^ n. (cmod ((?u i + (if bit i q then - 1 else 1) * ?s i) / complex_of_real (sqrt 2)))\<^sup>2)"
    using assms(1) by (simp add: norm_sq_map_upt)
  also have "\<dots> = (\<Sum>i<2 ^ n. (?a i + ?a (flip_bit q i)) / 2 + ?g i)"
    unfolding hadamard_entry pair ..
  also have "\<dots> = ((\<Sum>i<2 ^ n. ?a i) + (\<Sum>i<2 ^ n. ?a (flip_bit q i))) / 2 + (\<Sum>i<2 ^ n. ?g i)"
    unfolding sum.distrib sum_divide_distrib[symmetric] ..
  also have "\<dots> = (\<Sum>i<2 ^ n. ?a i)"
    unfolding flip sum_odd_flip[of q n ?g, OF assms(2) odd] by simp
  finally show ?thesis using assms(1) by (simp add: norm_sq_sum)
qed

section \<open>The state vector of a circuit\<close>

lemma length_zero_state: "length (zero_state n) = 2 ^ n"
  by (simp add: zero_state_def)

lemma norm_sq_zero_state: "norm_sq (zero_state n) = 1"
proof -
  have "norm_sq (zero_state n) = (\<Sum>i<(2::nat) ^ n. (cmod (if i = 0 then 1 else 0))\<^sup>2)"
    unfolding zero_state_def by (rule norm_sq_map_upt)
  also have "\<dots> = (\<Sum>i<(2::nat) ^ n. if i = 0 then 1 else 0)"
    by (rule sum.cong) auto
  also have "\<dots> = 1" by (simp add: sum.delta')
  finally show ?thesis .
qed

lemma norm_sq_apply_gate:
  assumes "valid_op n (g, qargs)" "length v = 2 ^ n"
  shows "norm_sq (apply_gate g qargs v) = norm_sq v"
proof (cases g)
  case HGate
  with assms(1) obtain q where "qargs = [q]" "q < n"
    by (cases qargs) (auto simp: valid_op_def)
  then show ?thesis using HGate norm_sq_HGate[OF assms(2), of q] by simp
next
  case XGate
  with assms(1) obtain q where "qargs = [q]" "q < n"
    by (cases qargs) (auto simp: valid_op_def)
  then show ?thesis using XGate norm_sq_XGate[OF assms(2), of q] by simp
next
  case CXGate
  with assms(1) obtain c t where "qargs = [c, t]" "t < n" "c \<noteq> t"
    by (cases qargs; cases "tl qargs") (auto simp: valid_op_def)
  then show ?thesis using CXGate norm_sq_CXGate[OF assms(2), of t c] by simp
qed

lemma run_ops:
  assumes "list_all (valid_op n) ops" "length v = 2 ^ n"
  shows "norm_sq (foldl (\<lambda>v (g, qargs). apply_gate g qargs v) v ops) = norm_sq v"
  using assms
proof (induction ops arbitrary: v)
  case Nil
  then show ?case by simp
next
  case (Cons op ops)
  obtain g qargs where op: "op = (g, qargs)" by (cases op)
  have "norm_sq (apply_gate g qargs v) = norm_sq v"
    using Cons.prems op by (intro norm_sq_apply_gate[of n]) simp_all
  moreover have "length (apply_gate g qargs v) = 2 ^ n"
    using Cons.prems(2) by (simp add: length_apply_gate)
  ultimately show ?case using Cons.IH[of "apply_gate g qargs v"] Cons.prems(1) op by simp
qed

lemma length_run_ops:
  "length (foldl (\<lambda>v (g, qargs). apply_gate g qargs v) v ops) = length v"
  by (induction ops arbitrary: v) (auto simp: length_apply_gate)

lemma length_statevector: "length (statevector c) = 2 ^ num_qubits c"
  by (simp add: statevector_def length_run_ops length_zero_state)

lemma norm_sq_statevector:
  assumes "list_all (valid_op (num_qubits c)) (data c)"
  shows "norm_sq (statevector c) = 1"
  unfolding statevector_def
  using run_ops[OF assms length_zero_state] norm_sq_zero_state by simp

lemma circuit_append_valid:
  assumes "circuit_append c g qargs = Inr c'" "list_all (valid_op (num_qubits c)) (data c)"
  shows "num_qubits c' = num_qubits c \<and> list_all (valid_op (num_qubits c')) (data c')"
  using assms by (auto simp: circuit_append_def valid_op_def split: if_splits)

lemma move_circuit:
  "circuit (snd (move e action)) = circuit e \<or>
   (\<exists>g qargs. circuit_append (circuit e) g qargs = Inr (circuit (snd (move e action))))"
  by (auto simp: move_def Let_def split: sum.splits prod.splits)

lemma move_qnum: "qnum (snd (move e action)) = qnum e"
  by (auto simp: move_def Let_def split: sum.splits prod.splits)

lemma reachable_wf:
  assumes "reachable g e"
  shows "num_qubits (circuit e) = qnum e \<and> list_all (valid_op (qnum e)) (data (circuit e))"
  using assms
proof (induction rule: reachable.induct)
  case (reach_init e)
  then show ?case
    unfolding init_eq[OF init_nonzero[OF reach_init]] by (auto simp: QuantumCircuit_def)
next
  case (reach_reset e)
  show ?case
    by (simp add: reset_def Let_def circuit_h_def QuantumCircuit_def list_all_iff valid_op_def)
next
  case (reach_move e action)
  from move_circuit[of e action] show ?case
  proof
    assume "circuit (snd (move e action)) = circuit e"
    then show ?thesis using reach_move.IH by (simp add: move_qnum)
  next
    assume "\<exists>g qargs. circuit_append (circuit e) g qargs = Inr (circuit (snd (move e action)))"
    then obtain g qargs where
      "circuit_append (circuit e) g qargs = Inr (circuit (snd (move e action)))" by blast
    moreover have "list_all (valid_op (num_qubits (circuit e))) (data (circuit e))"
      using reach_move.IH by simp
    ultimately
    have "num_qubits (circuit (snd (move e action))) = num_qubits (circuit e) \<and>
        list_all (valid_op (num_qubits (circuit (snd (move e action)))))
          (data (circuit (snd (move e action))))"
      by (rule circuit_append_valid)
    then have a: "num_qubits (circuit (snd (move e action))) = num_qubits (circuit e)"
      and b: "list_all (valid_op (num_qubits (circuit (snd (move e action)))))
        (data (circuit (snd (move e action))))"
      by blast+
    have n: "num_qubits (circuit (snd (move e action))) = qnum e"
      using a reach_move.IH by simp
    from b have "list_all (valid_op (qnum e)) (data (circuit (snd (move e action))))"
      unfolding n .
    with n show ?thesis unfolding move_qnum by (intro conjI)
  qed
qed

section \<open>Hadamard gates on the zero state\<close>

lemma unset_bit_less_half:
  fixes i :: nat
  assumes "i < 2 ^ Suc k"
  shows "unset_bit k i < 2 ^ k"
proof (rule less_power_bitsI)
  fix j assume j: "k \<le> j"
  show "\<not> bit (unset_bit k i) j"
  proof (cases "j = k")
    case True
    then show ?thesis by (simp add: bit_unset_bit_iff)
  next
    case False
    with j have "Suc k \<le> j" by simp
    from bit_high_false[OF assms this] show ?thesis by (simp add: bit_unset_bit_iff)
  qed
qed

lemma set_bit_not_less: "\<not> set_bit k (i::nat) < 2 ^ k"
proof
  assume "set_bit k i < 2 ^ k"
  from bit_high_false[OF this, of k] show False by (simp add: bit_set_bit_iff)
qed

lemma unset_bit_not_less:
  fixes i :: nat
  assumes "\<not> i < 2 ^ Suc k"
  shows "\<not> unset_bit k i < 2 ^ k"
proof
  assume a: "unset_bit k i < 2 ^ k"
  have "i < 2 ^ Suc k"
  proof (rule less_power_bitsI)
    fix j assume j: "Suc k \<le> j"
    then have "k \<le> j" "k \<noteq> j" by simp_all
    from bit_high_false[OF a this(1)] this(2) show "\<not> bit i j"
      by (simp add: bit_unset_bit_iff)
  qed
  with assms show False by simp
qed

lemma unset_bit_less:
  fixes i :: nat
  assumes "i < 2 ^ n" "q < n"
  shows "unset_bit q i < 2 ^ n"
  using assms flip_bit_less[OF assms] by (simp add: unset_bit_cases)

lemma set_bit_less:
  fixes i :: nat
  assumes "i < 2 ^ n" "q < n"
  shows "set_bit q i < 2 ^ n"
  using assms flip_bit_less[OF assms] by (simp add: set_bit_cases)

lemma hadamard_prefix:
  assumes "k \<le> n"
  shows "length (foldl (\<lambda>v (g, qargs). apply_gate g qargs v) (zero_state n)
            (map (\<lambda>q. (HGate, [q])) [0..<k])) = 2 ^ n \<and>
    (\<forall>i<2 ^ n. foldl (\<lambda>v (g, qargs). apply_gate g qargs v) (zero_state n)
            (map (\<lambda>q. (HGate, [q])) [0..<k]) ! i =
       (if i < 2 ^ k then (1 / complex_of_real (sqrt 2)) ^ k else 0))"
  using assms
proof (induction k)
  case 0
  then show ?case by (simp add: zero_state_def)
next
  case (Suc k)
  let ?v = "foldl (\<lambda>v (g, qargs). apply_gate g qargs v) (zero_state n)
            (map (\<lambda>q. (HGate, [q])) [0..<k])"
  let ?c = "1 / complex_of_real (sqrt 2)"
  from Suc have len: "length ?v = 2 ^ n"
    and ih: "\<And>i. i < 2 ^ n \<Longrightarrow> ?v ! i = (if i < 2 ^ k then ?c ^ k else 0)" and k: "k < n"
    by simp_all
  have step: "foldl (\<lambda>v (g, qargs). apply_gate g qargs v) (zero_state n)
            (map (\<lambda>q. (HGate, [q])) [0..<Suc k]) = apply_gate HGate [k] ?v"
    by simp
  have "apply_gate HGate [k] ?v ! i = (if i < 2 ^ Suc k then ?c ^ Suc k else 0)"
    if i: "i < 2 ^ n" for i
  proof -
    have u: "?v ! unset_bit k i = (if unset_bit k i < 2 ^ k then ?c ^ k else 0)"
      by (rule ih[OF unset_bit_less[OF i k]])
    have s: "?v ! set_bit k i = 0"
      using ih[OF set_bit_less[OF i k]] set_bit_not_less[of k i] by simp
    have "apply_gate HGate [k] ?v ! i =
        (?v ! unset_bit k i + (if bit i k then - 1 else 1) * ?v ! set_bit k i)
          / complex_of_real (sqrt 2)"
      using i len by simp
    also have "\<dots> = (if unset_bit k i < 2 ^ k then ?c ^ k else 0) / complex_of_real (sqrt 2)"
      unfolding u s by simp
    also have "\<dots> = (if i < 2 ^ Suc k then ?c ^ Suc k else 0)"
      using unset_bit_less_half[of i k] unset_bit_not_less[of i k]
      by (cases "i < 2 ^ Suc k") simp_all
    finally show ?thesis .
  qed
  then show ?case unfolding step by (simp add: length_apply_gate len)
qed

lemma inv_sqrt2_power: "(1 / complex_of_real (sqrt 2)) ^ n = complex_of_real (1 / sqrt (2 ^ n))"
  by (simp add: power_divide real_sqrt_power)

lemma statevector_reset:
  "statevector (circuit (snd (reset e))) =
     replicate (2 ^ qnum e) (complex_of_real (1 / sqrt (2 ^ qnum e)))"
proof -
  let ?n = "qnum e"
  let ?v = "foldl (\<lambda>v (g, qargs). apply_gate g qargs v) (zero_state ?n)
            (map (\<lambda>q. (HGate, [q])) [0..<?n])"
  have sv: "statevector (circuit (snd (reset e))) = ?v"
    by (simp add: reset_def Let_def statevector_def circuit_h_def QuantumCircuit_def)
  from hadamard_prefix[of ?n ?n]
  have len: "length ?v = 2 ^ ?n"
    and nth: "\<And>i. i < 2 ^ ?n \<Longrightarrow> ?v ! i = (1 / complex_of_real (sqrt 2)) ^ ?n"
    by simp_all
  have "?v = replicate (2 ^ ?n) (complex_of_real (1 / sqrt (2 ^ ?n)))"
    by (rule nth_equalityI) (simp_all add: len nth inv_sqrt2_power)
  with sv show ?thesis by simp
qed

lemma statevector_init:
  assumes "init g = Inr e"
  shows "statevector (circuit e) = zero_state (qnum e)"
  using assms unfolding init_eq[OF init_nonzero[OF assms]]
  by (auto simp: statevector_def QuantumCircuit_def)

section \<open>Rounding to two decimals\<close>

lemma rint_eqI:
  assumes "of_int k - 1 / 2 < x" "x < of_int k + 1 / 2"
  shows "rint x = k"
proof (cases "of_int k \<le> x")
  case True
  then have "\<lfloor>x\<rfloor> = k" using assms(2) by (intro floor_unique) simp_all
  then show ?thesis using assms(2) by (simp add: rint_def)
next
  case False
  then have "\<lfloor>x\<rfloor> = k - 1" using assms(1) by (intro floor_unique) simp_all
  then show ?thesis using assms(1) by (simp add: rint_def)
qed

lemma rint_of_int: "rint (of_int k) = k"
  by (rule rint_eqI) simp_all

lemma around_zero: "around 2 0 = 0"
  using rint_of_int[of 0] by (simp add: around_def complex_eq_iff)

lemma around_one: "around 2 1 = 1"
  using rint_of_int[of 100] rint_of_int[of 0] by (simp add: around_def complex_eq_iff)

lemma sqrt2_bounds: "141 / 100 < sqrt 2" "sqrt 2 < 143 / 100"
proof -
  show "141 / 100 < sqrt 2" by (rule real_less_rsqrt) (simp add: power2_eq_square)
  show "sqrt 2 < 143 / 100" by (rule real_less_lsqrt) (simp_all add: power2_eq_square)
qed

lemma hundred_over_sqrt2: "100 / sqrt 2 = 50 * sqrt 2"
proof -
  have "sqrt 2 * sqrt 2 = 2" by simp
  then show ?thesis by (simp add: field_simps)
qed

lemma rint_hundred_over_sqrt2: "rint (100 / sqrt 2) = 71"
  unfolding hundred_over_sqrt2
  using sqrt2_bounds by (intro rint_eqI) simp_all

lemma around_inv_sqrt2: "around 2 (complex_of_real (1 / sqrt 2)) = complex_of_real (71 / 100)"
  using rint_hundred_over_sqrt2 rint_of_int[of 0]
  by (simp add: around_def complex_eq_iff)

lemma zero_state_one: "zero_state (Suc 0) = [1, 0]"
  by (simp add: zero_state_def upt_two)

section \<open>Pauli X twice\<close>

lemma XGate_twice:
  assumes "length v = 2 ^ n" "q < n"
  shows "apply_gate XGate [q] (apply_gate XGate [q] v) = v"
proof (rule nth_equalityI)
  show "length (apply_gate XGate [q] (apply_gate XGate [q] v)) = length v" by simp
next
  fix i assume "i < length (apply_gate XGate [q] (apply_gate XGate [q] v))"
  then have i: "i < 2 ^ n" using assms(1) by simp
  then have "flip_bit q i < 2 ^ n" using assms(2) by (rule flip_bit_less)
  then show "apply_gate XGate [q] (apply_gate XGate [q] v) ! i = v ! i"
    using i assms(1) by (simp add: flip_bit_flip_bit)
qed

lemma statevector_append:
  "statevector (c\<lparr>data := data c @ [(g, qargs)]\<rparr>) = apply_gate g qargs (statevector c)"
  by (simp add: statevector_def)

lemma move_known:
  assumes "dict_get (moves e) action = Inr (qargs, g)"
    and "length qargs = gate_qubits g" "list_all (\<lambda>q. q < num_qubits (circuit e)) qargs"
      "distinct qargs"
  shows "move e action =
    (Inr (), e\<lparr>status_id := status_id e @ str_int action @ ''-'',
               circuit := (circuit e)\<lparr>data := data (circuit e) @ [(g, qargs)]\<rparr>\<rparr>)"
  using assms by (simp add: move_def circuit_append_def)

lemma reset_one_qubit:
  assumes "qnum e = 1"
  shows "statevector (circuit (snd (reset e))) =
      [complex_of_real (1 / sqrt 2), complex_of_real (1 / sqrt 2)]"
    and "fst (reset e) = [complex_of_real (71 / 100), complex_of_real (71 / 100)]"
proof -
  show sv: "statevector (circuit (snd (reset e))) =
      [complex_of_real (1 / sqrt 2), complex_of_real (1 / sqrt 2)]"
    unfolding statevector_reset assms by (simp add: numeral_2_eq_2)
  have "fst (reset e) = map (around 2) (statevector (circuit (snd (reset e))))"
    by (simp add: reset_def Let_def get_statevec_def)
  then show "fst (reset e) = [complex_of_real (71 / 100), complex_of_real (71 / 100)]"
    unfolding sv by (simp only: list.map around_inv_sqrt2)
qed

lemma statevector_append2:
  "statevector (c\<lparr>data := data c @ [(g1, q1), (g2, q2)]\<rparr>) =
     apply_gate g2 q2 (apply_gate g1 q1 (statevector c))"
  by (simp add: statevector_def)

lemma basis_not_uniform:
  "[1, 0] \<noteq> replicate (2 ^ 1) (complex_of_real (1 / sqrt (2 ^ 1)))"
  by (simp add: numeral_2_eq_2)

lemma norm_sq_rounded: "norm_sq [complex_of_real (71 / 100), complex_of_real (71 / 100)] = 5041 / 5000"
  by (simp add: norm_sq_def power2_eq_square)

section \<open>The claims\<close>

text \<open>
  C6: the outcome table built for dimension \<open>d\<close> (\<open>d * d\<close> qubits) has the three keys
  1 (player of the zeros), 2 (player of the ones) and 0 (draw); the three lists cover the
  indices from 0 up to \<open>2 ^ (d * d)\<close>, are pairwise disjoint, and no index is listed
  twice.
\<close>

theorem outcome_table_partition:
  "\<exists>wins_1 wins_2 draws.
     init_outcomes_dict (d * d) = Inr [(1, wins_1), (2, wins_2), (0, draws)] \<and>
     set wins_1 \<union> set wins_2 \<union> set draws = {0..<2 ^ (d * d)} \<and>
     set wins_1 \<inter> set wins_2 = {} \<and>
     set wins_1 \<inter> set draws = {} \<and>
     set wins_2 \<inter> set draws = {} \<and>
     distinct (wins_1 @ wins_2 @ draws)"
proof -
  let ?w = "\<lambda>x. win_check (d * d) (state_string (d * d) x)"
  let ?f = "\<lambda>k. filter (\<lambda>x. ?w x = Inr k) [0..<2 ^ (d * d)]"
  have cover: "set (?f 1) \<union> set (?f 2) \<union> set (?f 0) = {0..<2 ^ (d * d)}"
  proof -
    have "?w x = Inr 1 \<or> ?w x = Inr 2 \<or> ?w x = Inr 0" for x
    proof -
      from win_check_state_string[of d x] obtain w where "w \<le> 2" "?w x = Inr w" by blast
      moreover from this have "w = 0 \<or> w = 1 \<or> w = 2" by arith
      ultimately show ?thesis by auto
    qed
    then show ?thesis by auto
  qed
  have "init_outcomes_dict (d * d) = Inr [(1, ?f 1), (2, ?f 2), (0, ?f 0)]"
    by (rule init_outcomes_dict_eq)
  moreover have "set (?f 1) \<inter> set (?f 2) = {}" "set (?f 1) \<inter> set (?f 0) = {}"
    "set (?f 2) \<inter> set (?f 0) = {}" by auto
  moreover have "distinct (?f 1 @ ?f 2 @ ?f 0)" by auto
  ultimately show ?thesis using cover by blast
qed

text \<open>
  C3: for a board of dimension \<open>d\<close>, a classical index whose board has a complete line of
  zeros and a complete line of ones (among rows, columns and diagonals) is classified as a
  draw: \<^verbatim>\<open>_win_check\<close> returns 0 on its board string, and \<^verbatim>\<open>check_end\<close> of the
  constructed environment returns 0 on the index.  The witness is the index 3 of
  dimension 2, the board \<^verbatim>\<open>0011\<close>.
\<close>

theorem both_lines_draw:
  assumes "0 < d" and "init (int d) = Inr e" and "x < 2 ^ (d * d)"
    and "complete_line d (state_string (d * d) x) CHR ''0''"
    and "complete_line d (state_string (d * d) x) CHR ''1''"
  shows "win_check (d * d) (state_string (d * d) x) = Inr 0 \<and> check_end e x = Inr 0"
proof -
  have n: "qnum e = d * d" using init_fields(1)[OF assms(2)] by simp
  have "d * d \<le> length (state_string (d * d) x)"
    by (simp add: state_string_def length_zfill_ge)
  then have w: "win_check (d * d) (state_string (d * d) x) = Inr 0"
    using assms(4,5) by (simp add: win_check_complete[OF assms(1)])
  moreover have "check_end e x = win_check (qnum e) (state_string (qnum e) x)"
    using assms(2,3) n by (intro check_end_init) simp_all
  ultimately show ?thesis using n by simp
qed

theorem both_lines_draw_witness:
  "\<exists>e. init 2 = Inr e \<and> state_string 4 3 = ''0011'' \<and>
       complete_line 2 ''0011'' CHR ''0'' \<and> complete_line 2 ''0011'' CHR ''1'' \<and>
       win_check 4 ''0011'' = Inr 0 \<and> check_end e 3 = Inr 0"
proof -
  obtain e where e: "init (int 2) = Inr e" using init_eq[of "int 2"] by simp
  have s: "state_string (2 * 2) 3 = ''0011''" by code_simp
  have z: "complete_line 2 (state_string (2 * 2) 3) CHR ''0''" unfolding s by code_simp
  have o: "complete_line 2 (state_string (2 * 2) 3) CHR ''1''" unfolding s by code_simp
  have "(3::nat) < 2 ^ (2 * 2)" by simp
  from both_lines_draw[OF _ e this z o] s z o e show ?thesis by auto
qed

text \<open>
  C9: for dimension 2 the index 1, whose board string is \<^verbatim>\<open>0001\<close> (rows \<^verbatim>\<open>00\<close> and
  \<^verbatim>\<open>01\<close>), is a win of player 1, the player of the zeros.
\<close>

theorem index_0001_zero_player:
  "\<exists>e. init 2 = Inr e \<and> state_string (qnum e) 1 = ''0001'' \<and>
       win_check (qnum e) ''0001'' = Inr 1 \<and> check_end e 1 = Inr 1"
proof -
  obtain e where e: "init 2 = Inr e" using init_eq[of 2] by simp
  have n: "qnum e = 2 * 2" using init_fields(1)[OF e] by simp
  have s: "state_string (2 * 2) 1 = ''0001''" by code_simp
  have z: "complete_line 2 ''0001'' CHR ''0''" by code_simp
  have o: "\<not> complete_line 2 ''0001'' CHR ''1''" by code_simp
  have "win_check (2 * 2) ''0001'' =
      Inr (if complete_line 2 ''0001'' CHR ''0'' \<and> complete_line 2 ''0001'' CHR ''1'' then 0
           else if complete_line 2 ''0001'' CHR ''0'' then 1
           else if complete_line 2 ''0001'' CHR ''1'' then 2 else 0)"
    by (rule win_check_complete) simp_all
  then have w: "win_check (2 * 2) ''0001'' = Inr 1"
    using z o by simp
  have "check_end e 1 = win_check (qnum e) (state_string (qnum e) 1)"
    using e n by (intro check_end_init) simp_all
  then show ?thesis using e n s w by auto
qed

text \<open>
  C10: for every dimension \<open>d \<ge> 1\<close> the index 0, whose board shows a zero in every cell,
  is a win of player 1 (the player of the zeros) and not a draw: the board has a complete
  line of zeros and no complete line of ones.
\<close>

theorem index_zero_wins:
  assumes "0 < d" and "init (int d) = Inr e"
  shows "win_check (d * d) (state_string (d * d) 0) = Inr 1 \<and> check_end e 0 = Inr 1 \<and>
    complete_line d (state_string (d * d) 0) CHR ''0'' \<and>
    \<not> complete_line d (state_string (d * d) 0) CHR ''1''"
proof -
  have n: "qnum e = d * d" using init_fields(1)[OF assms(2)] by simp
  have s: "state_string (d * d) 0 = replicate (d * d) CHR ''0''"
    using assms(1) by (simp add: state_string_zero)
  have z: "complete_line d (state_string (d * d) 0) CHR ''0''"
    and o: "\<not> complete_line d (state_string (d * d) 0) CHR ''1''"
    unfolding s by (simp_all add: complete_line_zeros[OF assms(1)])
  have w: "win_check (d * d) (state_string (d * d) 0) = Inr 1"
    using z o s by (simp add: win_check_complete[OF assms(1)])
  moreover have "check_end e 0 = win_check (qnum e) (state_string (qnum e) 0)"
    using assms(2) by (intro check_end_init) simp_all
  ultimately show ?thesis using n z o by simp
qed

theorem index_zero_wins_witness:
  "\<exists>e. init 3 = Inr e \<and> state_string 9 0 = ''000000000'' \<and>
       win_check 9 ''000000000'' = Inr 1 \<and> check_end e 0 = Inr 1"
proof -
  obtain e where e: "init (int 3) = Inr e" using init_eq[of "int 3"] by simp
  have s: "state_string (3 * 3) 0 = ''000000000''" by code_simp
  from index_zero_wins[OF _ e] s e show ?thesis by auto
qed

text \<open>
  C7: for \<open>N\<close> qubits the move table has \<open>2 * N + N * (N - 1)\<close> entries; its identifiers
  are the integers from 0 up to that number, each once; its entries are pairwise
  different and are exactly a Hadamard and a Pauli X gate on every qubit and a controlled
  X gate on every ordered pair of two different qubits.
\<close>

theorem move_table_size:
  "length (init_moves_dict N) = 2 * N + N * (N - 1) \<and>
   map fst (init_moves_dict N) = map int [0..<2 * N + N * (N - 1)] \<and>
   distinct (map fst (init_moves_dict N)) \<and>
   distinct (map snd (init_moves_dict N)) \<and>
   set (map snd (init_moves_dict N)) =
     (\<lambda>q. ([q], HGate)) ` {..<N} \<union> (\<lambda>q. ([q], XGate)) ` {..<N} \<union>
     (\<lambda>(c, t). ([c, t], CXGate)) ` {(c, t). c < N \<and> t < N \<and> c \<noteq> t}"
proof -
  have keys: "map fst (init_moves_dict N) = map int [0..<2 * N + N * (N - 1)]"
    using init_moves_dict_keys[of N] by (simp add: length_permutations2)
  have len: "length (init_moves_dict N) = 2 * N + N * (N - 1)"
    using arg_cong[OF keys, of length] by simp
  have dk: "distinct (map fst (init_moves_dict N))"
    unfolding keys by (simp add: distinct_map inj_on_def)
  have dv: "distinct (map snd (init_moves_dict N))"
    unfolding init_moves_dict_entries by (rule distinct_entries)
  have sv: "set (map snd (init_moves_dict N)) =
     (\<lambda>q. ([q], HGate)) ` {..<N} \<union> (\<lambda>q. ([q], XGate)) ` {..<N} \<union>
     (\<lambda>(c, t). ([c, t], CXGate)) ` {(c, t). c < N \<and> t < N \<and> c \<noteq> t}"
    unfolding init_moves_dict_entries set_append set_map set_permutations2 by auto
  from len keys dk dv sv show ?thesis by blast
qed

text \<open>
  C5, as stated, fails: \<^verbatim>\<open>__init__\<close> checks nothing.  With \<^verbatim>\<open>grid_size = -1\<close> the
  number of qubits is \<open>(-1)\<^sup>2 = 1\<close> and the environment of one qubit is constructed.
\<close>

theorem init_negative_counterexample:
  "init (- 1) =
     Inr \<lparr>qnum = 1, circuit = QuantumCircuit 1 0,
         moves = [(0, ([0], HGate)), (1, ([0], XGate))], action_space = 2,
         endings_lookuptable = [(1, [0]), (2, [1]), (0, [])], status_id = ''''\<rparr>"
  using init_negate[of 1] init_one by simp

text \<open>
  C5, amended: \<^verbatim>\<open>grid_size = 0\<close> fails, with the AssertionError that gym's
  \<^verbatim>\<open>spaces.Discrete\<close> raises on the empty move table; the constructor has no dimension
  check of its own and no InvalidDimension error.  A negative \<^verbatim>\<open>grid_size\<close> does not fail:
  it constructs the environment of \<^verbatim>\<open>grid_size ** 2\<close> qubits, the same environment as
  \<^verbatim>\<open>-grid_size\<close> gives.
\<close>

theorem init_no_dimension_check:
  "init 0 = Inl AssertionError \<and>
   init (- g) = init g \<and>
   (g < 0 \<longrightarrow> (\<exists>e. init g = Inr e \<and> qnum e = nat (g * g) \<and> 0 < qnum e))"
proof (intro conjI impI)
  show "init 0 = Inl AssertionError" by (rule init_zero)
  show "init (- g) = init g" by (rule init_negate)
next
  assume neg: "g < 0"
  then have nz: "g \<noteq> 0" by simp
  obtain e where e: "init g = Inr e" using init_eq[OF nz] by blast
  have "qnum e = nat \<bar>g\<bar> * nat \<bar>g\<bar>" using e by (rule init_fields)
  moreover have "nat \<bar>g\<bar> * nat \<bar>g\<bar> = nat (g * g)"
    using nat_square[of g] by (simp add: power2_eq_square)
  moreover have "0 < g * g" using nz by (simp add: zero_less_mult_iff less_le)
  ultimately have "qnum e = nat (g * g) \<and> 0 < qnum e" by simp
  with e show "\<exists>e. init g = Inr e \<and> qnum e = nat (g * g) \<and> 0 < qnum e" by blast
qed

theorem init_no_dimension_check_witness:
  "(- 2 :: int) < 0 \<and> init 0 = Inl AssertionError \<and>
   (\<exists>e. init (- 2) = Inr e \<and> qnum e = 4) \<and> init 2 = init (- 2)"
  using init_no_dimension_check[of "- 2"] by auto

text \<open>
  C4, as stated, fails: \<^verbatim>\<open>move\<close> extends \<^verbatim>\<open>status_id\<close> before it looks the action up.
  In the environment of one qubit the action 5 is no key of the move table; the call
  raises KeyError and leaves \<^verbatim>\<open>status_id\<close> changed from the empty string to \<^verbatim>\<open>5-\<close>.
\<close>

theorem move_unknown_counterexample:
  "(let E = \<lparr>qnum = 1, circuit = QuantumCircuit 1 0,
              moves = [(0, ([0], HGate)), (1, ([0], XGate))], action_space = 2,
              endings_lookuptable = [(1, [0]), (2, [1]), (0, [])], status_id = ''''\<rparr>
    in init 1 = Inr E \<and>
       move E 5 = (Inl KeyError, E\<lparr>status_id := ''5-''\<rparr>) \<and>
       snd (move E 5) \<noteq> E)"
  unfolding Let_def using init_one
  by (simp add: move_unknown str_int_5)

text \<open>
  C4, amended: a call of \<^verbatim>\<open>move\<close> with an identifier that is no key of the move table
  raises KeyError at that call, and a call of \<^verbatim>\<open>move\<close> that raises leaves the register
  as it was: the circuit, hence its state vector and the vector \<^verbatim>\<open>_get_statevec\<close>
  returns, the number of qubits, the move table, the action space and the outcome table
  are unchanged.  A call that does not raise appends the gate of its table entry, on the
  qubits of that entry, at the end of the circuit and changes nothing else of the
  register: a move either appends its gate to the circuit or leaves the circuit untouched.
\<close>

theorem move_failure_keeps_register:
  "(action \<notin> fst ` set (moves e) \<longrightarrow> fst (move e action) = Inl KeyError) \<and>
   (isl (fst (move e action)) \<longrightarrow>
      circuit (snd (move e action)) = circuit e \<and>
      statevector (circuit (snd (move e action))) = statevector (circuit e) \<and>
      get_statevec (snd (move e action)) = get_statevec e \<and>
      qnum (snd (move e action)) = qnum e \<and>
      moves (snd (move e action)) = moves e \<and>
      action_space (snd (move e action)) = action_space e \<and>
      endings_lookuptable (snd (move e action)) = endings_lookuptable e) \<and>
   (\<not> isl (fst (move e action)) \<longrightarrow>
      (\<exists>qargs g. dict_get (moves e) action = Inr (qargs, g) \<and>
         circuit (snd (move e action)) =
           (circuit e)\<lparr>data := data (circuit e) @ [(g, qargs)]\<rparr>) \<and>
      qnum (snd (move e action)) = qnum e \<and>
      moves (snd (move e action)) = moves e \<and>
      action_space (snd (move e action)) = action_space e \<and>
      endings_lookuptable (snd (move e action)) = endings_lookuptable e)"
proof (intro conjI impI)
  assume "action \<notin> fst ` set (moves e)"
  then show "fst (move e action) = Inl KeyError" by (simp add: move_unknown)
next
  assume "isl (fst (move e action))"
  then obtain err where "fst (move e action) = Inl err" by (auto simp: isl_def)
  then have s: "snd (move e action) = e\<lparr>status_id := status_id e @ str_int action @ ''-''\<rparr>"
    by (rule move_failure)
  show "circuit (snd (move e action)) = circuit e"
    "statevector (circuit (snd (move e action))) = statevector (circuit e)"
    "get_statevec (snd (move e action)) = get_statevec e"
    "qnum (snd (move e action)) = qnum e"
    "moves (snd (move e action)) = moves e"
    "action_space (snd (move e action)) = action_space e"
    "endings_lookuptable (snd (move e action)) = endings_lookuptable e"
    unfolding s by (simp_all add: get_statevec_def)
next
  assume "\<not> isl (fst (move e action))"
  then have "fst (move e action) = Inr ()" by (cases "fst (move e action)") simp_all
  from move_success[OF this] obtain qargs g where
    d: "dict_get (moves e) action = Inr (qargs, g)" and
    s: "snd (move e action) =
      e\<lparr>status_id := status_id e @ str_int action @ ''-'',
        circuit := (circuit e)\<lparr>data := data (circuit e) @ [(g, qargs)]\<rparr>\<rparr>"
    by blast
  from d s show "\<exists>qargs g. dict_get (moves e) action = Inr (qargs, g) \<and>
         circuit (snd (move e action)) =
           (circuit e)\<lparr>data := data (circuit e) @ [(g, qargs)]\<rparr>"
    by auto
  show "qnum (snd (move e action)) = qnum e"
    "moves (snd (move e action)) = moves e"
    "action_space (snd (move e action)) = action_space e"
    "endings_lookuptable (snd (move e action)) = endings_lookuptable e"
    unfolding s by simp_all
qed

theorem move_failure_keeps_register_witness:
  "(let E = \<lparr>qnum = 1, circuit = QuantumCircuit 1 0,
              moves = [(0, ([0], HGate)), (1, ([0], XGate))], action_space = 2,
              endings_lookuptable = [(1, [0]), (2, [1]), (0, [])], status_id = ''''\<rparr>
    in 5 \<notin> fst ` set (moves E) \<and> fst (move E 5) = Inl KeyError \<and>
       circuit (snd (move E 5)) = circuit E \<and>
       get_statevec (snd (move E 5)) = get_statevec E \<and>
       moves (snd (move E 5)) = moves E \<and>
       fst (move E 1) = Inr () \<and>
       dict_get (moves E) 1 = Inr ([0], XGate) \<and>
       circuit (snd (move E 1)) = (circuit E)\<lparr>data := data (circuit E) @ [(XGate, [0])]\<rparr> \<and>
       moves (snd (move E 1)) = moves E)"
proof -
  let ?E = "\<lparr>qnum = 1, circuit = QuantumCircuit 1 0,
              moves = [(0, ([0], HGate)), (1, ([0], XGate))], action_space = 2,
              endings_lookuptable = [(1, [0]), (2, [1]), (0, [])], status_id = ''''\<rparr>"
  have n: "5 \<notin> fst ` set (moves ?E)" by simp
  have d: "dict_get (moves ?E) 1 = Inr ([0], XGate)" by (simp add: dict_get_def)
  have m: "fst (move ?E 1) = Inr ()"
    by (simp add: move_def dict_get_def circuit_append_def QuantumCircuit_def)
  from move_failure_keeps_register[of 5 ?E] n
  have f: "fst (move ?E 5) = Inl KeyError" "circuit (snd (move ?E 5)) = circuit ?E"
    "get_statevec (snd (move ?E 5)) = get_statevec ?E" "moves (snd (move ?E 5)) = moves ?E"
    by simp_all
  from move_failure_keeps_register[of 1 ?E] m d
  have s: "circuit (snd (move ?E 1)) = (circuit ?E)\<lparr>data := data (circuit ?E) @ [(XGate, [0])]\<rparr>"
    "moves (snd (move ?E 1)) = moves ?E"
    by auto
  from n f m d s show ?thesis unfolding Let_def by (intro conjI)
qed

text \<open>
  C1, as stated, fails: \<^verbatim>\<open>__init__\<close> builds the empty circuit and applies no Hadamard
  gate.  For \<^verbatim>\<open>grid_size = 1\<close> the state vector of the constructed environment is
  \<open>[1, 0]\<close>, the basis state of index 0, and not the equal superposition.
\<close>

theorem init_state_counterexample:
  "(let E = \<lparr>qnum = 1, circuit = QuantumCircuit 1 0,
              moves = [(0, ([0], HGate)), (1, ([0], XGate))], action_space = 2,
              endings_lookuptable = [(1, [0]), (2, [1]), (0, [])], status_id = ''''\<rparr>
    in init 1 = Inr E \<and>
       statevector (circuit E) = [1, 0] \<and>
       get_statevec E = [1, 0] \<and>
       statevector (circuit E) \<noteq> replicate (2 ^ 1) (complex_of_real (1 / sqrt (2 ^ 1))))"
proof -
  let ?E = "\<lparr>qnum = 1, circuit = QuantumCircuit 1 0,
              moves = [(0, ([0], HGate)), (1, ([0], XGate))], action_space = 2,
              endings_lookuptable = [(1, [0]), (2, [1]), (0, [])], status_id = ''''\<rparr>"
  have sv: "statevector (circuit ?E) = [1, 0]"
    by (simp add: statevector_def QuantumCircuit_def zero_state_one)
  have gs: "get_statevec ?E = [1, 0]"
    unfolding get_statevec_def sv by (simp add: around_zero around_one)
  have ne: "statevector (circuit ?E) \<noteq> replicate (2 ^ 1) (complex_of_real (1 / sqrt (2 ^ 1)))"
    unfolding sv by (rule basis_not_uniform)
  from init_one sv gs ne show ?thesis unfolding Let_def by (intro conjI)
qed

text \<open>
  C1, amended: after \<^verbatim>\<open>reset\<close> the register is in the equal superposition: each of the
  \<open>2 ^ N\<close> amplitudes of its state vector is \<open>1 / sqrt (2 ^ N)\<close>, and \<^verbatim>\<open>reset\<close> returns
  this vector rounded to two decimals.  At construction the circuit is empty and the
  state vector is the basis state of index 0: amplitude 1 at index 0 and 0 elsewhere.
\<close>

theorem reset_equal_superposition:
  "statevector (circuit (snd (reset e))) =
     replicate (2 ^ qnum e) (complex_of_real (1 / sqrt (2 ^ qnum e))) \<and>
   fst (reset e) =
     replicate (2 ^ qnum e) (around 2 (complex_of_real (1 / sqrt (2 ^ qnum e)))) \<and>
   qnum (snd (reset e)) = qnum e \<and>
   (init g = Inr e \<longrightarrow> statevector (circuit e) = zero_state (qnum e))"
proof -
  have "fst (reset e) = map (around 2) (statevector (circuit (snd (reset e))))"
    by (simp add: reset_def Let_def get_statevec_def)
  then have "fst (reset e) =
     replicate (2 ^ qnum e) (around 2 (complex_of_real (1 / sqrt (2 ^ qnum e))))"
    unfolding statevector_reset by simp
  moreover have "qnum (snd (reset e)) = qnum e" by (simp add: reset_def Let_def)
  ultimately show ?thesis using statevector_reset[of e] statevector_init[of g e] by blast
qed

theorem reset_equal_superposition_witness:
  "(let E = \<lparr>qnum = 1, circuit = QuantumCircuit 1 0,
              moves = [(0, ([0], HGate)), (1, ([0], XGate))], action_space = 2,
              endings_lookuptable = [(1, [0]), (2, [1]), (0, [])], status_id = ''''\<rparr>
    in init 1 = Inr E \<and>
       statevector (circuit E) = [1, 0] \<and>
       statevector (circuit (snd (reset E))) =
         [complex_of_real (1 / sqrt 2), complex_of_real (1 / sqrt 2)])"
proof -
  let ?E = "\<lparr>qnum = 1, circuit = QuantumCircuit 1 0,
              moves = [(0, ([0], HGate)), (1, ([0], XGate))], action_space = 2,
              endings_lookuptable = [(1, [0]), (2, [1]), (0, [])], status_id = ''''\<rparr>"
  from reset_equal_superposition[of ?E 1] init_one show ?thesis
    unfolding Let_def by (simp add: zero_state_one numeral_2_eq_2)
qed

text \<open>
  C2, as stated, fails: \<^verbatim>\<open>_get_statevec\<close> rounds every amplitude to two decimals.  In
  the environment of one qubit \<^verbatim>\<open>reset\<close> returns \<open>[0.71, 0.71]\<close>, whose squared
  magnitudes sum to 1.0082.
\<close>

theorem rounded_norm_counterexample:
  "(let E = \<lparr>qnum = 1, circuit = QuantumCircuit 1 0,
              moves = [(0, ([0], HGate)), (1, ([0], XGate))], action_space = 2,
              endings_lookuptable = [(1, [0]), (2, [1]), (0, [])], status_id = ''''\<rparr>
    in init 1 = Inr E \<and>
       fst (reset E) = [complex_of_real (71 / 100), complex_of_real (71 / 100)] \<and>
       get_statevec (snd (reset E)) = fst (reset E) \<and>
       norm_sq (fst (reset E)) = 10082 / 10000 \<and>
       \<not> \<bar>norm_sq (fst (reset E)) - 1\<bar> \<le> 1 / 10 ^ 6)"
proof -
  let ?E = "\<lparr>qnum = 1, circuit = QuantumCircuit 1 0,
              moves = [(0, ([0], HGate)), (1, ([0], XGate))], action_space = 2,
              endings_lookuptable = [(1, [0]), (2, [1]), (0, [])], status_id = ''''\<rparr>"
  have r: "fst (reset ?E) = [complex_of_real (71 / 100), complex_of_real (71 / 100)]"
    by (rule reset_one_qubit(2)) simp
  have g: "get_statevec (snd (reset ?E)) = fst (reset ?E)"
    by (simp add: reset_def Let_def)
  have n: "norm_sq (fst (reset ?E)) = 10082 / 10000"
    unfolding r norm_sq_rounded by simp
  have t: "\<not> \<bar>norm_sq (fst (reset ?E)) - 1\<bar> \<le> 1 / 10 ^ 6"
    unfolding n by simp
  from init_one r g n t show ?thesis unfolding Let_def by (intro conjI)
qed

text \<open>
  C2, amended: in every environment that construction, \<^verbatim>\<open>reset\<close> and any sequence of
  \<^verbatim>\<open>move\<close> calls can produce, the squared magnitudes of the state vector of the board
  circuit, before \<^verbatim>\<open>_get_statevec\<close> rounds it, sum to 1 (in exact arithmetic).
\<close>

theorem statevector_unitary:
  assumes "reachable g e"
  shows "norm_sq (statevector (circuit e)) = 1"
proof -
  from reachable_wf[OF assms]
  have "list_all (valid_op (num_qubits (circuit e))) (data (circuit e))" by simp
  then show ?thesis by (rule norm_sq_statevector)
qed

theorem statevector_unitary_witness:
  "(let E = \<lparr>qnum = 1, circuit = QuantumCircuit 1 0,
              moves = [(0, ([0], HGate)), (1, ([0], XGate))], action_space = 2,
              endings_lookuptable = [(1, [0]), (2, [1]), (0, [])], status_id = ''''\<rparr>
    in init 1 = Inr E \<and>
       norm_sq (statevector (circuit (snd (move (snd (reset E)) 1)))) = 1)"
proof -
  let ?E = "\<lparr>qnum = 1, circuit = QuantumCircuit 1 0,
              moves = [(0, ([0], HGate)), (1, ([0], XGate))], action_space = 2,
              endings_lookuptable = [(1, [0]), (2, [1]), (0, [])], status_id = ''''\<rparr>"
  have "reachable 1 (snd (move (snd (reset ?E)) 1))"
    by (intro reach_move reach_reset reach_init init_one)
  from statevector_unitary[OF this] init_one show ?thesis
    unfolding Let_def by simp
qed

text \<open>
  C8: when an action of the move table is the Pauli X gate on a qubit \<open>q\<close> of the
  register, two \<^verbatim>\<open>move\<close> calls with it in succession both succeed and leave the state
  vector of the board circuit, and the vector \<^verbatim>\<open>_get_statevec\<close> returns, as they were
  before.  Amplitudes are exact, so the two vectors are equal.
\<close>

theorem pauli_x_twice:
  assumes "dict_get (moves e) action = Inr ([q], XGate)" and "q < num_qubits (circuit e)"
  shows "fst (move e action) = Inr () \<and>
    fst (move (snd (move e action)) action) = Inr () \<and>
    statevector (circuit (snd (move (snd (move e action)) action))) = statevector (circuit e) \<and>
    get_statevec (snd (move (snd (move e action)) action)) = get_statevec e"
proof -
  let ?e1 = "e\<lparr>status_id := status_id e @ str_int action @ ''-'',
               circuit := (circuit e)\<lparr>data := data (circuit e) @ [(XGate, [q])]\<rparr>\<rparr>"
  let ?e2 = "?e1\<lparr>status_id := status_id ?e1 @ str_int action @ ''-'',
               circuit := (circuit ?e1)\<lparr>data := data (circuit ?e1) @ [(XGate, [q])]\<rparr>\<rparr>"
  have m1: "move e action = (Inr (), ?e1)"
    using assms by (intro move_known) simp_all
  have m2: "move ?e1 action = (Inr (), ?e2)"
    using assms by (intro move_known) simp_all
  have "statevector (circuit ?e2) =
      apply_gate XGate [q] (apply_gate XGate [q] (statevector (circuit e)))"
    by (simp add: statevector_append2 del: apply_gate.simps)
  also have "\<dots> = statevector (circuit e)"
    using length_statevector[of "circuit e"] assms(2) by (rule XGate_twice)
  finally have sv: "statevector (circuit ?e2) = statevector (circuit e)" .
  then have "get_statevec ?e2 = get_statevec e" unfolding get_statevec_def by simp
  with sv show ?thesis unfolding m1 by (simp add: m2)
qed

theorem pauli_x_twice_witness:
  "(let E = \<lparr>qnum = 1, circuit = QuantumCircuit 1 0,
              moves = [(0, ([0], HGate)), (1, ([0], XGate))], action_space = 2,
              endings_lookuptable = [(1, [0]), (2, [1]), (0, [])], status_id = ''''\<rparr>
    in dict_get (moves E) 1 = Inr ([0], XGate) \<and> 0 < num_qubits (circuit E) \<and>
       fst (move E 1) = Inr () \<and>
       statevector (circuit (snd (move (snd (move E 1)) 1))) = statevector (circuit E) \<and>
       get_statevec (snd (move (snd (move E 1)) 1)) = get_statevec E)"
proof -
  let ?E = "\<lparr>qnum = 1, circuit = QuantumCircuit 1 0,
              moves = [(0, ([0], HGate)), (1, ([0], XGate))], action_space = 2,
              endings_lookuptable = [(1, [0]), (2, [1]), (0, [])], status_id = ''''\<rparr>"
  have d: "dict_get (moves ?E) 1 = Inr ([0], XGate)" by (simp add: dict_get_def)
  have n: "0 < num_qubits (circuit ?E)" by (simp add: QuantumCircuit_def)
  from pauli_x_twice[OF d n] d n show ?thesis unfolding Let_def by simp
qed

end
